theory Spec2Isabelle
  imports Main
begin

section \<open>Helpers of the module\<close>

text \<open>
  The solver is one TypeScript class, \<open>Sudoku\<close>, with three free helper functions.
  The repository holds three states of that module; the model follows the latest one, in
  which the four deduction rules are the private methods \<open>#rule1\<close> to \<open>#rule4\<close>
  and the constructor copies the rows it is given.
  JavaScript numbers are modelled as \<open>int\<close> (cell values and coordinates are integers
  throughout the program), arrays as lists, and every \<open>throw\<close> as a value of type
  \<open>error\<close> on the left of a sum.
\<close>

datatype error = TypeError string | RangeError string

type_synonym grid = "int list list"

text \<open>
  \<open>transpose = (matrix) => matrix.map((_, i) => matrix.map((row) => row[i]))\<close>.
  The program only transposes 9 by 9 boards, where every \<open>row[i]\<close> is in range.
\<close>

definition transpose_matrix :: "'a list list \<Rightarrow> 'a list list" where
  "transpose_matrix matrix = map (\<lambda>i. map (\<lambda>row. row ! i) matrix) [0..<length matrix]"

text \<open>
  \<open>isUnique = (list) => new Set(list.filter(Boolean)).size === list.filter(Boolean).length\<close>.
\<close>

definition isUnique :: "int list \<Rightarrow> bool" where
  "isUnique list =
     (card (set (filter (\<lambda>v. v \<noteq> 0) list)) = length (filter (\<lambda>v. v \<noteq> 0) list))"

text \<open>
  \<open>difference = (...arrays) => arrays.reduce((a, b) => a.filter((x) => !b.includes(x)))\<close>.
  Every call site passes a first array and spreads the others after it, so the model takes
  the first array apart from the rest (a \<open>reduce\<close> over no array at all would throw).
\<close>

definition difference :: "'a list \<Rightarrow> 'a list list \<Rightarrow> 'a list" where
  "difference a bs = foldl (\<lambda>a b. filter (\<lambda>x. x \<notin> set b) a) a bs"

text \<open>\<open>Array.prototype.slice(from, to)\<close> for \<open>0 \<le> from \<le> to\<close>.\<close>

definition slice :: "'a list \<Rightarrow> nat \<Rightarrow> nat \<Rightarrow> 'a list" where
  "slice xs from to = take (to - from) (drop from xs)"

text \<open>
  \<open>forEach\<close> and the counted \<open>for\<close> loops run their body over a fixed list of items,
  threading the mutable state; an exception thrown by the body ends the loop.
\<close>

fun forEach :: "('a \<Rightarrow> 's \<Rightarrow> error + 's) \<Rightarrow> 'a list \<Rightarrow> 's \<Rightarrow> error + 's" where
  "forEach f [] s = Inr s"
| "forEach f (x # xs) s = (case f x s of Inl e \<Rightarrow> Inl e | Inr s' \<Rightarrow> forEach f xs s')"

text \<open>\<open>array.map(f)\<close> where \<open>f\<close> may throw.\<close>

fun mapE :: "('a \<Rightarrow> error + 'b) \<Rightarrow> 'a list \<Rightarrow> error + 'b list" where
  "mapE f [] = Inr []"
| "mapE f (x # xs) =
     (case f x of Inl e \<Rightarrow> Inl e
      | Inr v \<Rightarrow> (case mapE f xs of Inl e \<Rightarrow> Inl e | Inr vs \<Rightarrow> Inr (v # vs)))"

section \<open>The class, on the contents of its board\<close>

text \<open>
  The private field \<open>#board\<close> is an array of nine row arrays. The methods below are
  written over its contents, a \<open>grid\<close>; a method that mutates the board returns the new
  contents. Objects, the constructor's copy and \<open>solve\<close> are in the next section.
\<close>

definition rows :: "grid \<Rightarrow> grid" where
  "rows b = map (\<lambda>row. row) b"

definition columns :: "grid \<Rightarrow> grid" where
  "columns b = transpose_matrix b"

definition squares :: "grid \<Rightarrow> grid" where
  "squares b =
     map (\<lambda>i. concat (map (\<lambda>row. slice row ((i mod 3) * 3) ((i mod 3) * 3 + 3))
                        (slice b ((i div 3) * 3) ((i div 3) * 3 + 3))))
         [0..<9]"

definition okay :: "grid \<Rightarrow> bool" where
  "okay b = (list_all isUnique (rows b) \<and> list_all isUnique (columns b)
             \<and> list_all isUnique (squares b))"

definition solved :: "grid \<Rightarrow> bool" where
  "solved b = (okay b \<and> list_all (\<lambda>cell. cell \<noteq> 0) (concat b))"

definition out_of_bounds :: "int \<Rightarrow> int \<Rightarrow> bool" where
  "out_of_bounds x y = (x < 0 \<or> x > 8 \<or> y < 0 \<or> y > 8)"

text \<open>
  \<open>a / n | 0\<close> and \<open>a % n\<close> for a positive \<open>n\<close>: JavaScript truncates the
  quotient towards zero and gives the remainder the sign of \<open>a\<close>. (The reduction
  to 32 bits that \<open>| 0\<close> also performs needs a quotient of at least \<open>2 ^ 31\<close>, far
  from any coordinate of a board.)
\<close>

definition quot :: "int \<Rightarrow> int \<Rightarrow> int" where
  "quot a n = (if a < 0 then - ((- a) div n) else a div n)"

definition rem :: "int \<Rightarrow> int \<Rightarrow> int" where
  "rem a n = a - n * quot a n"

definition candidates :: "grid \<Rightarrow> int \<Rightarrow> int \<Rightarrow> error + int list" where
  "candidates b x y =
     (if out_of_bounds x y then Inl (RangeError ''position out of bounds'')
      else if b ! nat y ! nat x \<noteq> 0 then Inr []
      else Inr (filter (\<lambda>v. v \<notin> set (squares b ! nat (quot y 3 * 3 + quot x 3)))
               (filter (\<lambda>v. v \<notin> set (columns b ! nat x))
               (filter (\<lambda>v. v \<notin> set (rows b ! nat y))
                  (map (\<lambda>v. int v + 1) [0..<9])))))"

text \<open>
  The public methods \<open>set\<close>, \<open>get\<close> and \<open>delete\<close>, named \<open>set_cell\<close>,
  \<open>get_cell\<close> and \<open>delete_cell\<close> here (\<open>set\<close> is the set of a list in HOL).
  Each checks the position first; \<open>set\<close> then checks the value.
\<close>

definition set_cell :: "grid \<Rightarrow> int \<Rightarrow> int \<Rightarrow> int \<Rightarrow> error + grid" where
  "set_cell b x y v =
     (if out_of_bounds x y then Inl (RangeError ''position out of bounds'')
      else if v < 0 \<or> v > 9 then Inl (RangeError ''value must be 0-9'')
      else Inr (b[nat y := (b ! nat y)[nat x := v]]))"

definition get_cell :: "grid \<Rightarrow> int \<Rightarrow> int \<Rightarrow> error + int" where
  "get_cell b x y =
     (if out_of_bounds x y then Inl (RangeError ''position out of bounds'')
      else Inr (b ! nat y ! nat x))"

definition delete_cell :: "grid \<Rightarrow> int \<Rightarrow> int \<Rightarrow> error + grid" where
  "delete_cell b x y =
     (if out_of_bounds x y then Inl (RangeError ''position out of bounds'')
      else Inr (b[nat y := (b ! nat y)[nat x := 0]]))"

text \<open>\<open>findIndex\<close> and \<open>indexOf\<close> answer \<open>-1\<close> when nothing is found.\<close>

fun findIndex :: "('a \<Rightarrow> bool) \<Rightarrow> 'a list \<Rightarrow> int" where
  "findIndex p [] = -1"
| "findIndex p (x # xs) =
     (if p x then 0 else (let k = findIndex p xs in if k = -1 then -1 else k + 1))"

definition nextOpenCell :: "grid \<Rightarrow> int \<times> int" where
  "nextOpenCell b =
     (let y = findIndex (\<lambda>row. 0 \<in> set row) (rows b);
          x = (if y \<ge> 0 then findIndex (\<lambda>c. c = 0) (rows b ! nat y) else -1)
      in (x, y))"

text \<open>
  \<open>new Sudoku(board)\<close> on an array of rows: the rows are copied, then the shape and
  the cell values are checked. This is the content of the new object's \<open>#board\<close>.
\<close>

definition checked :: "grid \<Rightarrow> error + grid" where
  "checked b =
     (if length b \<noteq> 9 \<or> list_ex (\<lambda>row. length row \<noteq> 9) b
      then Inl (TypeError ''board should be 9x9'')
      else if list_ex (\<lambda>cell. cell < 0 \<or> cell > 9) (concat b)
      then Inl (RangeError ''cell values must be 0-9'')
      else Inr b)"

definition clone :: "grid \<Rightarrow> error + grid" where
  "clone b = checked (map (\<lambda>row. row) b)"

subsection \<open>The four deduction rules\<close>

text \<open>
  Each rule mutates the board and returns the list \<open>modified\<close> of the cells it wrote;
  the model returns both. A rule's loop state is the pair of the board and that list.
\<close>

type_synonym cell = "int \<times> int"
type_synonym pass = "grid \<times> cell list"

definition rule1_cell :: "int \<Rightarrow> int \<Rightarrow> pass \<Rightarrow> error + pass" where
  "rule1_cell i j s =
     (case s of (b, modified) \<Rightarrow>
        (case candidates b j i of Inl e \<Rightarrow> Inl e
         | Inr cs \<Rightarrow>
             if length cs \<noteq> 1 then Inr (b, modified)
             else (case set_cell b j i (cs ! 0) of Inl e \<Rightarrow> Inl e
                   | Inr b' \<Rightarrow> Inr (b', modified @ [(j, i)]))))"

definition rule1 :: "grid \<Rightarrow> int \<Rightarrow> int \<Rightarrow> error + pass" where
  "rule1 b x y =
     forEach (\<lambda>i. forEach (\<lambda>j. rule1_cell i j) [x + 1..8]) [y..8] (b, [])"

text \<open>
  The line shared by rules 2, 3 and 4:
  \<open>allowed.map((candidates, i) => difference(candidates, ...allowed.filter((_, j) => j !== i)))\<close>.
\<close>

definition diffs :: "int list list \<Rightarrow> int list list" where
  "diffs allowed =
     map (\<lambda>i. difference (allowed ! i)
                 (map (\<lambda>j. allowed ! j) (filter (\<lambda>j. j \<noteq> i) [0..<length allowed])))
         [0..<length allowed]"

text \<open>
  The \<open>forEach\<close> over \<open>diffs\<close> shared by rules 2, 3 and 4; \<open>at k\<close> is the cell
  of the \<open>k\<close>-th entry.
\<close>

definition assign_diff :: "(nat \<Rightarrow> cell) \<Rightarrow> nat \<times> int list \<Rightarrow> pass \<Rightarrow> error + pass" where
  "assign_diff at kd s =
     (case s of (b, modified) \<Rightarrow>
        (case kd of (k, diff) \<Rightarrow>
           if length diff = 1
           then (case set_cell b (fst (at k)) (snd (at k)) (diff ! 0) of Inl e \<Rightarrow> Inl e
                 | Inr b' \<Rightarrow> Inr (b', modified @ [at k]))
           else Inr (b, modified)))"

definition assign_diffs :: "(nat \<Rightarrow> cell) \<Rightarrow> int list list \<Rightarrow> pass \<Rightarrow> error + pass" where
  "assign_diffs at ds s = forEach (assign_diff at) (zip [0..<length ds] ds) s"

text \<open>
  In rule 2, \<open>this.#rows[i]\<close> is \<open>undefined\<close> for a negative \<open>i\<close>, and calling
  \<open>map\<close> on it throws a \<open>TypeError\<close>; likewise \<open>this.#columns[j]\<close> in rule 3.
\<close>

definition rule2_row :: "int \<Rightarrow> pass \<Rightarrow> error + pass" where
  "rule2_row i s =
     (case s of (b, modified) \<Rightarrow>
        if i < 0 then Inl (TypeError ''undefined row'')
        else (case mapE (\<lambda>j. candidates b (int j) i) [0..<length (rows b ! nat i)] of
                Inl e \<Rightarrow> Inl e
              | Inr allowed \<Rightarrow> assign_diffs (\<lambda>j. (int j, i)) (diffs allowed) (b, modified)))"

definition rule2 :: "grid \<Rightarrow> int \<Rightarrow> int \<Rightarrow> error + pass" where
  "rule2 b x y = forEach rule2_row [y..8] (b, [])"

definition rule3_column :: "int \<Rightarrow> pass \<Rightarrow> error + pass" where
  "rule3_column j s =
     (case s of (b, modified) \<Rightarrow>
        if j < 0 then Inl (TypeError ''undefined column'')
        else (case mapE (\<lambda>i. candidates b j (int i)) [0..<length (columns b ! nat j)] of
                Inl e \<Rightarrow> Inl e
              | Inr allowed \<Rightarrow> assign_diffs (\<lambda>i. (j, int i)) (diffs allowed) (b, modified)))"

definition rule3 :: "grid \<Rightarrow> int \<Rightarrow> int \<Rightarrow> error + pass" where
  "rule3 b x y = forEach rule3_column [x..8] (b, [])"

definition box_indices :: "int \<Rightarrow> int list" where
  "box_indices k = map (\<lambda>v. v + 3 * k + 18 * quot k 3) [0, 1, 2, 9, 10, 11, 18, 19, 20]"

definition rule4_box :: "int \<Rightarrow> pass \<Rightarrow> error + pass" where
  "rule4_box k s =
     (case s of (b, modified) \<Rightarrow>
        (let indices = box_indices k in
         case mapE (\<lambda>i. candidates b (rem i 9) (quot i 9)) indices of
           Inl e \<Rightarrow> Inl e
         | Inr allowed \<Rightarrow>
             assign_diffs (\<lambda>i. (rem (indices ! i) 9, quot (indices ! i) 9)) (diffs allowed)
               (b, modified)))"

definition rule4 :: "grid \<Rightarrow> int \<Rightarrow> int \<Rightarrow> error + pass" where
  "rule4 b x y = forEach rule4_box [quot y 3 * 3 + quot x 3..8] (b, [])"

subsection \<open>The search\<close>

text \<open>
  The closure \<open>backtrack\<close> of \<open>solve\<close> mutates the working board and the array
  \<open>solutions\<close>; its state is the pair of both.
  The recursion is bounded by a fuel argument: \<open>None\<close> means that the fuel ran out.

  Every call of the closure opens with the progress display:
  \<open>process.stdout.cursorTo(0, 0)\<close>, \<open>process.stdout.clearScreenDown()\<close> and two
  \<open>process.stdout.write\<close>. The first two methods exist only when standard output is a
  terminal (then \<open>process.stdout\<close> is a \<open>tty.WriteStream\<close>); on a pipe or a file
  \<open>process.stdout.cursorTo\<close> is \<open>undefined\<close> and the call throws a \<open>TypeError\<close>
  before anything is written. The flag \<open>isTTY\<close> says which of the two holds; it is the
  property of that name of \<open>process.stdout\<close>. The display touches neither the board nor
  \<open>solutions\<close>, and the text it writes is not part of the model
  (\<open>board.toString("high")\<close> reads the 9 by 9 rows of \<open>#board\<close> and
  \<open>#original\<close> and does not throw).
\<close>

definition display :: "bool \<Rightarrow> error + unit" where
  "display isTTY =
     (if isTTY then Inr ()
      else Inl (TypeError ''process.stdout.cursorTo is not a function''))"

type_synonym search = "grid \<times> grid list"

fun forEachF :: "('a \<Rightarrow> 's \<Rightarrow> (error + 's) option) \<Rightarrow> 'a list \<Rightarrow> 's \<Rightarrow> (error + 's) option" where
  "forEachF f [] s = Some (Inr s)"
| "forEachF f (x # xs) s =
     (case f x s of None \<Rightarrow> None
      | Some (Inl e) \<Rightarrow> Some (Inl e)
      | Some (Inr s') \<Rightarrow> forEachF f xs s')"

text \<open>The four rule calls of a trial, appending to the undo log \<open>modified\<close>.\<close>

definition propagate :: "grid \<Rightarrow> int \<Rightarrow> int \<Rightarrow> error + pass" where
  "propagate b x y =
     (case rule1 b x y of Inl e \<Rightarrow> Inl e | Inr (b1, m1) \<Rightarrow>
      case rule2 b1 x y of Inl e \<Rightarrow> Inl e | Inr (b2, m2) \<Rightarrow>
      case rule3 b2 x y of Inl e \<Rightarrow> Inl e | Inr (b3, m3) \<Rightarrow>
      case rule4 b3 x y of Inl e \<Rightarrow> Inl e | Inr (b4, m4) \<Rightarrow>
        Inr (b4, (x, y) # m1 @ m2 @ m3 @ m4))"

definition undo :: "cell list \<Rightarrow> grid \<Rightarrow> error + grid" where
  "undo modified b = forEach (\<lambda>c b. delete_cell b (fst c) (snd c)) modified b"

text \<open>
  The callback of \<open>board.candidates(x, y).forEach\<close>: one trial of a candidate at the
  pivot. \<open>recurse\<close> is the recursive call of \<open>backtrack\<close>.
\<close>

definition trial ::
  "(search \<Rightarrow> (error + search) option) \<Rightarrow> int \<Rightarrow> int \<Rightarrow> int \<Rightarrow> search \<Rightarrow> (error + search) option"
where
  "trial recurse x y candidate s =
     (case s of (b, solutions) \<Rightarrow>
        (case propagate b x y of Inl e \<Rightarrow> Some (Inl e)
         | Inr (b1, modified) \<Rightarrow>
         (case set_cell b1 x y candidate of Inl e \<Rightarrow> Some (Inl e)
          | Inr b2 \<Rightarrow>
          (case recurse (b2, solutions) of None \<Rightarrow> None
           | Some (Inl e) \<Rightarrow> Some (Inl e)
           | Some (Inr (b3, solutions')) \<Rightarrow>
           (case undo modified b3 of Inl e \<Rightarrow> Some (Inl e)
            | Inr b4 \<Rightarrow> Some (Inr (b4, solutions')))))))"

fun backtrack :: "bool \<Rightarrow> nat \<Rightarrow> search \<Rightarrow> (error + search) option" where
  "backtrack isTTY 0 s = None"
| "backtrack isTTY (Suc n) s =
     (case s of (b, solutions) \<Rightarrow>
        (case display isTTY of Inl e \<Rightarrow> Some (Inl e)
         | Inr u \<Rightarrow>
        if \<not> okay b then Some (Inr (b, solutions))
        else if solved b
        then (case clone b of Inl e \<Rightarrow> Some (Inl e)
              | Inr c \<Rightarrow> Some (Inr (b, solutions @ [c])))
        else (case nextOpenCell b of (x, y) \<Rightarrow>
          if x = -1 \<or> y = -1 then Some (Inr (b, solutions))
          else (case candidates b x y of Inl e \<Rightarrow> Some (Inl e)
            | Inr cs \<Rightarrow> forEachF (trial (backtrack isTTY n) x y) cs (b, solutions)))))"

section \<open>Objects: the constructor's copy and \<open>solve\<close>\<close>

text \<open>
  Row arrays are shared by reference in JavaScript, so whether \<open>solve\<close> can disturb the
  caller's board depends on what the constructor does with the rows it is given. The heap
  is the list of the row arrays allocated so far; a reference is a position in it. An
  object holds the references of the rows of \<open>#board\<close> and of \<open>#original\<close>.
\<close>

type_synonym ref = nat
type_synonym heap = "int list list"

record sudoku =
  board :: "ref list"
  original :: "ref list"

definition contents :: "heap \<Rightarrow> ref list \<Rightarrow> grid" where
  "contents h refs = map (\<lambda>r. h ! r) refs"

text \<open>\<open>rows.map((row) => [...row])\<close>: every row is copied into a new array.\<close>

definition copy_rows :: "heap \<Rightarrow> grid \<Rightarrow> heap \<times> ref list" where
  "copy_rows h b = (h @ b, [length h..<length h + length b])"

text \<open>Writing the rows of an object back, row by row.\<close>

definition store :: "heap \<Rightarrow> ref list \<Rightarrow> grid \<Rightarrow> heap" where
  "store h refs b = fold (\<lambda>rw h. h[fst rw := snd rw]) (zip refs b) h"

text \<open>
  The string form of a board:
  \<open>board.replace(/ /g, "0").replace(/[^0-9\n]/g, "").trim().split("\n")
     .map((line) => line.split("").map(Number))\<close>.
  After the second \<open>replace\<close> only digits and newlines are left, so \<open>trim\<close> removes
  the newlines at both ends.
\<close>

definition newline :: char where
  "newline = CHR 0x0A"

definition is_digit :: "char \<Rightarrow> bool" where
  "is_digit c = (c \<in> set ''0123456789'')"

definition trim :: "string \<Rightarrow> string" where
  "trim s = rev (dropWhile (\<lambda>c. c = newline) (rev (dropWhile (\<lambda>c. c = newline) s)))"

fun split :: "char \<Rightarrow> string \<Rightarrow> string list" where
  "split sep [] = [[]]"
| "split sep (c # cs) =
     (if c = sep then [] # split sep cs
      else (case split sep cs of [] \<Rightarrow> [[c]] | l # ls \<Rightarrow> (c # l) # ls))"

definition Number :: "char \<Rightarrow> int" where
  "Number c = int (of_char c) - 48"

definition parse :: "string \<Rightarrow> grid" where
  "parse text =
     map (\<lambda>line. map Number line)
       (split newline
         (trim (filter (\<lambda>c. is_digit c \<or> c = newline)
                 (map (\<lambda>c. if c = CHR '' '' then CHR ''0'' else c) text))))"

datatype board_input = Text string | Matrix grid

text \<open>
  The constructor. A matrix argument is given by the contents of its rows, which the
  constructor copies; \<open>#original\<close> is a second copy.
\<close>

definition Sudoku_new :: "heap \<Rightarrow> board_input \<Rightarrow> error + heap \<times> sudoku" where
  "Sudoku_new h input =
     (case copy_rows h (case input of Text text \<Rightarrow> parse text | Matrix m \<Rightarrow> m) of
        (h1, brefs) \<Rightarrow>
          (case checked (contents h1 brefs) of Inl e \<Rightarrow> Inl e
           | Inr b \<Rightarrow>
               (case copy_rows h1 b of
                  (h2, orefs) \<Rightarrow> Inr (h2, \<lparr>board = brefs, original = orefs\<rparr>))))"

text \<open>The getter \<open>board\<close>: a copy of the current rows.\<close>

definition get_board :: "heap \<Rightarrow> sudoku \<Rightarrow> grid" where
  "get_board h this = rows (contents h (board this))"

text \<open>
  \<open>solve\<close> answers \<open>undefined\<close> (\<open>None\<close>) or the array of solutions. The closure
  \<open>backtrack\<close> reads and writes the object \<open>new Sudoku(this.#board)\<close> only: it runs on
  the contents of that object's rows, which are written back to the heap when it returns.
  The solutions are clones that nothing writes afterwards; they are kept by their contents.
  \<open>isTTY\<close> is handed to the display of the closure. An invalid board is answered
  before the closure is ever called.
\<close>

definition solve ::
  "bool \<Rightarrow> nat \<Rightarrow> heap \<Rightarrow> sudoku \<Rightarrow> (error + heap \<times> grid list option) option"
where
  "solve isTTY fuel h this =
     (if \<not> okay (contents h (board this)) then Some (Inr (h, None))
      else (case Sudoku_new h (Matrix (contents h (board this))) of
              Inl e \<Rightarrow> Some (Inl e)
            | Inr (h1, work) \<Rightarrow>
                (case backtrack isTTY fuel (contents h1 (board work), []) of
                   None \<Rightarrow> None
                 | Some (Inl e) \<Rightarrow> Some (Inl e)
                 | Some (Inr (b, solutions)) \<Rightarrow>
                     Some (Inr (store h1 (board work) b,
                                if solutions = [] then None else Some solutions)))))"

section \<open>Boards of the right shape\<close>

text \<open>
  What the constructor establishes and every method keeps: nine rows of nine cells, every
  cell between 0 and 9.
\<close>

definition nine_by_nine :: "grid \<Rightarrow> bool" where
  "nine_by_nine b = (length b = 9 \<and> list_all (\<lambda>row. length row = 9) b)"

definition in_range :: "grid \<Rightarrow> bool" where
  "in_range b = list_all (\<lambda>cell. 0 \<le> cell \<and> cell \<le> 9) (concat b)"

section \<open>Notions used to state the properties\<close>

subsection \<open>Cells, groups and candidate sets\<close>

text \<open>
  Writing a value into cell \<open>(x, y)\<close>: column \<open>x\<close> of row \<open>y\<close>, as
  \<open>this.#board[y][x] = value\<close> does.
\<close>

definition put :: "grid \<Rightarrow> nat \<Rightarrow> nat \<Rightarrow> int \<Rightarrow> grid" where
  "put b x y v = b[y := (b ! y)[x := v]]"

text \<open>
  The cells of row \<open>i\<close>, of column \<open>j\<close> and of box \<open>k\<close> (boxes are numbered row
  by row), each cell as the pair of its column and its row, and the 27 groups of a board.
\<close>

definition row_cells :: "nat \<Rightarrow> (nat \<times> nat) list" where
  "row_cells i = map (\<lambda>j. (j, i)) [0..<9]"

definition column_cells :: "nat \<Rightarrow> (nat \<times> nat) list" where
  "column_cells j = map (\<lambda>i. (j, i)) [0..<9]"

definition box_cells :: "nat \<Rightarrow> (nat \<times> nat) list" where
  "box_cells k =
     concat (map (\<lambda>dy. map (\<lambda>dx. (3 * (k mod 3) + dx, 3 * (k div 3) + dy)) [0..<3]) [0..<3])"

definition cell_values :: "grid \<Rightarrow> (nat \<times> nat) list \<Rightarrow> int list" where
  "cell_values b cs = map (\<lambda>c. b ! snd c ! fst c) cs"

definition groups :: "(nat \<times> nat) list list" where
  "groups = map row_cells [0..<9] @ map column_cells [0..<9] @ map box_cells [0..<9]"

definition box_of :: "nat \<Rightarrow> nat \<Rightarrow> nat" where
  "box_of x y = y div 3 * 3 + x div 3"

text \<open>
  The candidate set of a cell, in the words of the specification: empty for a filled cell,
  otherwise the values 1 to 9 that occur neither in the cell's row, nor in its column, nor
  in its box.
\<close>

definition cand :: "grid \<Rightarrow> nat \<Rightarrow> nat \<Rightarrow> int set" where
  "cand b x y =
     (if b ! y ! x \<noteq> 0 then {}
      else {v. 1 \<le> v \<and> v \<le> 9
              \<and> (\<forall>j<9. b ! y ! j \<noteq> v)
              \<and> (\<forall>i<9. b ! i ! x \<noteq> v)
              \<and> (\<forall>i<9. \<forall>j<9. i div 3 = y div 3 \<and> j div 3 = x div 3 \<longrightarrow> b ! i ! j \<noteq> v)})"

subsection \<open>Completions of a board\<close>

text \<open>
  \<open>s\<close> extends \<open>b\<close> when it agrees with \<open>b\<close> on every filled cell of \<open>b\<close>; a
  completion of \<open>b\<close> is a solved board of the right shape that extends \<open>b\<close>: an
  assignment of the empty cells that completes the grid.
\<close>

definition extends :: "grid \<Rightarrow> grid \<Rightarrow> bool" where
  "extends s b =
     list_all (\<lambda>y. list_all (\<lambda>x. b ! y ! x \<noteq> 0 \<longrightarrow> s ! y ! x = b ! y ! x) [0..<9]) [0..<9]"

definition completion :: "grid \<Rightarrow> grid \<Rightarrow> bool" where
  "completion s b = (nine_by_nine s \<and> in_range s \<and> solved s \<and> extends s b)"

text \<open>A value is forced at a cell when every completion of the board has it there.\<close>

definition forced :: "grid \<Rightarrow> nat \<Rightarrow> nat \<Rightarrow> int \<Rightarrow> bool" where
  "forced b x y v = (\<forall>s. completion s b \<longrightarrow> s ! y ! x = v)"

text \<open>
  \<open>fills b b' m\<close>: the board \<open>b'\<close> is \<open>b\<close> with the cells listed in \<open>m\<close> filled,
  each of them empty in \<open>b\<close> and filled with a value between 1 and 9 that is forced in
  \<open>b\<close>; every other cell is as in \<open>b\<close>. This is what a deduction rule does to the board.
\<close>

definition fills :: "grid \<Rightarrow> grid \<Rightarrow> cell list \<Rightarrow> bool" where
  "fills b b' m =
     (nine_by_nine b' \<and> (\<forall>c\<in>set m. \<not> out_of_bounds (fst c) (snd c)) \<and>
      (\<forall>y<9. \<forall>x<9.
         if (int x, int y) \<in> set m
         then b ! y ! x = 0 \<and> 1 \<le> b' ! y ! x \<and> b' ! y ! x \<le> 9 \<and> forced b x y (b' ! y ! x)
         else b' ! y ! x = b ! y ! x))"

text \<open>The empty cells of a board; their number bounds the depth of the search.\<close>

definition empties :: "grid \<Rightarrow> (nat \<times> nat) set" where
  "empties b = {(x, y). x < 9 \<and> y < 9 \<and> b ! y ! x = 0}"

subsection \<open>The rules, as the specification words them\<close>

text \<open>
  Rule 1 at one scanned cell: when the candidate set of the cell has exactly one member,
  assign it and log the cell. \<open>rule1_scan\<close> lists the cells that the loops of
  \<open>#rule1\<close> visit, in the order of the visit.
\<close>

definition naked_single :: "cell \<Rightarrow> pass \<Rightarrow> pass" where
  "naked_single c s =
     (case s of (b, modified) \<Rightarrow>
        if card (cand b (nat (fst c)) (nat (snd c))) = 1
        then (put b (nat (fst c)) (nat (snd c)) (the_elem (cand b (nat (fst c)) (nat (snd c)))),
              modified @ [c])
        else (b, modified))"

definition rule1_scan :: "int \<Rightarrow> int \<Rightarrow> cell list" where
  "rule1_scan x y = concat (map (\<lambda>i. map (\<lambda>j. (j, i)) [x + 1..8]) [y..8])"

text \<open>
  Rules 2 to 4 on one group \<open>g\<close> of cells: \<open>hidden b g k\<close> is the set difference between
  the candidates of the \<open>k\<close>-th cell and the union of the candidates of all other cells of
  the group; every cell whose difference has exactly one value gets that value. All
  differences are taken on the board \<open>b\<close> as it is when the group is entered.
\<close>

definition hidden :: "grid \<Rightarrow> (nat \<times> nat) list \<Rightarrow> nat \<Rightarrow> int set" where
  "hidden b g k =
     cand b (fst (g ! k)) (snd (g ! k))
     - (\<Union>k'\<in>{0..<length g} - {k}. cand b (fst (g ! k')) (snd (g ! k')))"

definition hidden_singles :: "(nat \<times> nat) list \<Rightarrow> pass \<Rightarrow> pass" where
  "hidden_singles g s =
     (case s of (b, modified) \<Rightarrow>
        (fold (\<lambda>k b'. if card (hidden b g k) = 1
                       then put b' (fst (g ! k)) (snd (g ! k)) (the_elem (hidden b g k)) else b')
              [0..<length g] b,
         modified @ map (\<lambda>k. (int (fst (g ! k)), int (snd (g ! k))))
                        (filter (\<lambda>k. card (hidden b g k) = 1) [0..<length g])))"

text \<open>
  The body shared by the loops of \<open>#rule2\<close>, \<open>#rule3\<close> and \<open>#rule4\<close>, over the
  cells of one group.
\<close>

definition group_pass :: "(nat \<times> nat) list \<Rightarrow> pass \<Rightarrow> error + pass" where
  "group_pass g s =
     (case s of (b, modified) \<Rightarrow>
        (case mapE (\<lambda>c. candidates b (int (fst c)) (int (snd c))) g of
           Inl e \<Rightarrow> Inl e
         | Inr allowed \<Rightarrow>
             assign_diffs (\<lambda>k. (int (fst (g ! k)), int (snd (g ! k)))) (diffs allowed)
               (b, modified)))"

text \<open>
  Rule 2 on row \<open>i\<close>, in the words of the specification: the set difference between the
  candidates of the cell in column \<open>j\<close> and the union of the candidates of all other cells
  of the row; every cell of the row whose difference has exactly one value gets it.
\<close>

definition row_difference :: "grid \<Rightarrow> nat \<Rightarrow> nat \<Rightarrow> int set" where
  "row_difference b i j = cand b j i - (\<Union>j'\<in>{0..<9} - {j}. cand b j' i)"

definition row_hidden_singles :: "nat \<Rightarrow> pass \<Rightarrow> pass" where
  "row_hidden_singles i s =
     (case s of (b, modified) \<Rightarrow>
        (b[i := map (\<lambda>j. if card (row_difference b i j) = 1
                          then the_elem (row_difference b i j) else b ! i ! j) [0..<9]],
         modified @ map (\<lambda>j. (int j, int i))
                        (filter (\<lambda>j. card (row_difference b i j) = 1) [0..<9])))"

text \<open>
  The cells that Rule 1 scans according to the specification: the cells after the pivot
  in the pivot's row, and all nine columns of every row below it.
\<close>

definition claimed_scan :: "int \<Rightarrow> int \<Rightarrow> cell list" where
  "claimed_scan x y =
     concat (map (\<lambda>i. map (\<lambda>j. (j, i)) (if i = y then [x + 1..8] else [0..8])) [y..8])"

text \<open>
  Running a rule a second time on the board that its first run left: the two logs, and
  whether the second run left the board unchanged.
\<close>

definition twice ::
  "(grid \<Rightarrow> int \<Rightarrow> int \<Rightarrow> error + pass) \<Rightarrow> grid \<Rightarrow> int \<Rightarrow> int \<Rightarrow> error + cell list \<times> cell list \<times> bool"
where
  "twice rule b x y =
     (case rule b x y of Inl e \<Rightarrow> Inl e
      | Inr (b1, m1) \<Rightarrow>
          (case rule b1 x y of Inl e \<Rightarrow> Inl e
           | Inr (b2, m2) \<Rightarrow> Inr (m1, m2, b2 = b1)))"

subsection \<open>Counting completions\<close>

text \<open>
  A second, independent enumeration of the completions of a board, used to count them:
  branch on an empty cell with the fewest candidates. It is not part of the program.
\<close>

definition cand_list :: "grid \<Rightarrow> nat \<Rightarrow> nat \<Rightarrow> int list" where
  "cand_list b x y =
     (if b ! y ! x \<noteq> 0 then []
      else filter (\<lambda>v. v \<notin> set (cell_values b (row_cells y))
                     \<and> v \<notin> set (cell_values b (column_cells x))
                     \<and> v \<notin> set (cell_values b (box_cells (box_of x y))))
             [1, 2, 3, 4, 5, 6, 7, 8, 9])"

definition open_cells :: "grid \<Rightarrow> (nat \<times> nat) list" where
  "open_cells b = filter (\<lambda>c. b ! snd c ! fst c = 0) (concat (map row_cells [0..<9]))"

text \<open>
  \<open>best_cell b cs best\<close> scans the cells \<open>cs\<close> for one with fewer candidates than
  \<open>best\<close>, stopping at the first cell with at most one candidate.
\<close>

type_synonym choice = "((nat \<times> nat) \<times> int list) option"

fun choose_cell :: "(nat \<times> nat) \<Rightarrow> int list \<Rightarrow> choice \<Rightarrow> bool \<times> choice" where
  "choose_cell c vs None = (length vs \<le> 1, Some (c, vs))"
| "choose_cell c vs (Some best) =
     (if length vs \<le> 1 then (True, Some (c, vs))
      else if length vs < length (snd best) then (False, Some (c, vs))
      else (False, Some best))"

fun best_cell :: "grid \<Rightarrow> (nat \<times> nat) list \<Rightarrow> choice \<Rightarrow> choice" where
  "best_cell b [] best = best"
| "best_cell b (c # cs) best =
     (case choose_cell c (cand_list b (fst c) (snd c)) best of
        (True, best') \<Rightarrow> best'
      | (False, best') \<Rightarrow> best_cell b cs best')"

fun enumerate_completions :: "nat \<Rightarrow> grid \<Rightarrow> grid list option" where
  "enumerate_completions 0 b = None"
| "enumerate_completions (Suc n) b =
     (case best_cell b (open_cells b) None of
        None \<Rightarrow> Some (if okay b then [b] else [])
      | Some (p, vs) \<Rightarrow>
          map_option concat
            (those (map (\<lambda>v. enumerate_completions n (put b (fst p) (snd p) v)) vs)))"

section \<open>Example boards\<close>

text \<open>A board with a single clue, a 5 in the top left corner.\<close>

definition example_row :: grid where
  "example_row = [5, 0, 0, 0, 0, 0, 0, 0, 0] # replicate 8 (replicate 9 0)"

text \<open>
  The starting grid of the module's own example run, and the object that the constructor
  makes of it in an empty heap.
\<close>

definition scenario_B :: grid where
  "scenario_B =
     [[1, 0, 0, 0, 6, 0, 0, 0, 0],
      [9, 8, 0, 0, 0, 0, 6, 0, 5],
      [0, 0, 0, 0, 0, 5, 0, 0, 1],
      [0, 0, 0, 0, 0, 0, 3, 0, 4],
      [0, 6, 0, 0, 0, 0, 9, 0, 0],
      [0, 4, 0, 7, 2, 0, 0, 0, 0],
      [0, 9, 3, 0, 7, 6, 1, 0, 0],
      [0, 0, 6, 4, 8, 0, 0, 0, 7],
      [5, 0, 0, 9, 0, 2, 4, 6, 0]]"

definition scenario_B_heap :: heap where
  "scenario_B_heap = scenario_B @ scenario_B"

definition scenario_B_object :: sudoku where
  "scenario_B_object = \<lparr>board = [0, 1, 2, 3, 4, 5, 6, 7, 8],
     original = [9, 10, 11, 12, 13, 14, 15, 16, 17]\<rparr>"

text \<open>The eight completions of that grid.\<close>

definition scenario_B_solutions :: "grid list" where
  "scenario_B_solutions =
     [[[1, 5, 4, 3, 6, 7, 2, 8, 9],
       [9, 8, 7, 2, 4, 1, 6, 3, 5],
       [6, 3, 2, 8, 9, 5, 7, 4, 1],
       [7, 2, 9, 6, 5, 8, 3, 1, 4],
       [8, 6, 5, 1, 3, 4, 9, 7, 2],
       [3, 4, 1, 7, 2, 9, 8, 5, 6],
       [4, 9, 3, 5, 7, 6, 1, 2, 8],
       [2, 1, 6, 4, 8, 3, 5, 9, 7],
       [5, 7, 8, 9, 1, 2, 4, 6, 3]],
      [[1, 5, 7, 3, 6, 8, 2, 4, 9],
       [9, 8, 2, 1, 4, 7, 6, 3, 5],
       [6, 3, 4, 2, 9, 5, 7, 8, 1],
       [8, 2, 1, 6, 5, 9, 3, 7, 4],
       [7, 6, 5, 8, 3, 4, 9, 1, 2],
       [3, 4, 9, 7, 2, 1, 8, 5, 6],
       [4, 9, 3, 5, 7, 6, 1, 2, 8],
       [2, 1, 6, 4, 8, 3, 5, 9, 7],
       [5, 7, 8, 9, 1, 2, 4, 6, 3]],
      [[1, 5, 7, 3, 6, 8, 2, 4, 9],
       [9, 8, 2, 1, 4, 7, 6, 3, 5],
       [6, 3, 4, 2, 9, 5, 7, 8, 1],
       [8, 2, 9, 6, 5, 1, 3, 7, 4],
       [7, 6, 1, 8, 3, 4, 9, 5, 2],
       [3, 4, 5, 7, 2, 9, 8, 1, 6],
       [4, 9, 3, 5, 7, 6, 1, 2, 8],
       [2, 1, 6, 4, 8, 3, 5, 9, 7],
       [5, 7, 8, 9, 1, 2, 4, 6, 3]],
      [[1, 5, 7, 3, 6, 8, 2, 4, 9],
       [9, 8, 2, 1, 4, 7, 6, 3, 5],
       [6, 3, 4, 2, 9, 5, 7, 8, 1],
       [8, 2, 9, 6, 5, 1, 3, 7, 4],
       [7, 6, 5, 8, 3, 4, 9, 1, 2],
       [3, 4, 1, 7, 2, 9, 8, 5, 6],
       [4, 9, 3, 5, 7, 6, 1, 2, 8],
       [2, 1, 6, 4, 8, 3, 5, 9, 7],
       [5, 7, 8, 9, 1, 2, 4, 6, 3]],
      [[1, 5, 7, 8, 6, 4, 2, 3, 9],
       [9, 8, 2, 1, 3, 7, 6, 4, 5],
       [6, 3, 4, 2, 9, 5, 7, 8, 1],
       [7, 2, 9, 6, 5, 8, 3, 1, 4],
       [8, 6, 5, 3, 4, 1, 9, 7, 2],
       [3, 4, 1, 7, 2, 9, 8, 5, 6],
       [4, 9, 3, 5, 7, 6, 1, 2, 8],
       [2, 1, 6, 4, 8, 3, 5, 9, 7],
       [5, 7, 8, 9, 1, 2, 4, 6, 3]],
      [[1, 5, 7, 8, 6, 4, 2, 3, 9],
       [9, 8, 2, 1, 3, 7, 6, 4, 5],
       [6, 3, 4, 2, 9, 5, 7, 8, 1],
       [8, 2, 1, 6, 5, 9, 3, 7, 4],
       [7, 6, 5, 3, 4, 8, 9, 1, 2],
       [3, 4, 9, 7, 2, 1, 8, 5, 6],
       [4, 9, 3, 5, 7, 6, 1, 2, 8],
       [2, 1, 6, 4, 8, 3, 5, 9, 7],
       [5, 7, 8, 9, 1, 2, 4, 6, 3]],
      [[1, 5, 7, 8, 6, 4, 2, 3, 9],
       [9, 8, 2, 1, 3, 7, 6, 4, 5],
       [6, 3, 4, 2, 9, 5, 7, 8, 1],
       [8, 2, 9, 6, 5, 1, 3, 7, 4],
       [7, 6, 1, 3, 4, 8, 9, 5, 2],
       [3, 4, 5, 7, 2, 9, 8, 1, 6],
       [4, 9, 3, 5, 7, 6, 1, 2, 8],
       [2, 1, 6, 4, 8, 3, 5, 9, 7],
       [5, 7, 8, 9, 1, 2, 4, 6, 3]],
      [[1, 5, 7, 8, 6, 4, 2, 3, 9],
       [9, 8, 2, 1, 3, 7, 6, 4, 5],
       [6, 3, 4, 2, 9, 5, 7, 8, 1],
       [8, 2, 9, 6, 5, 1, 3, 7, 4],
       [7, 6, 5, 3, 4, 8, 9, 1, 2],
       [3, 4, 1, 7, 2, 9, 8, 5, 6],
       [4, 9, 3, 5, 7, 6, 1, 2, 8],
       [2, 1, 6, 4, 8, 3, 5, 9, 7],
       [5, 7, 8, 9, 1, 2, 4, 6, 3]]]"

text \<open>
  A board whose cell in column 0 of row 1 has the single candidate 9, and a board on which
  a second run of Rule 1 finds a cell that the first run left.
\<close>

definition skipped_example :: grid where
  "skipped_example =
     [[0, 0, 0, 0, 0, 0, 0, 0, 0],
      [0, 1, 2, 3, 4, 5, 6, 7, 8],
      [0, 0, 0, 0, 0, 0, 0, 0, 0],
      [0, 0, 0, 0, 0, 0, 0, 0, 0],
      [0, 0, 0, 0, 0, 0, 0, 0, 0],
      [0, 0, 0, 0, 0, 0, 0, 0, 0],
      [0, 0, 0, 0, 0, 0, 0, 0, 0],
      [0, 0, 0, 0, 0, 0, 0, 0, 0],
      [0, 0, 0, 0, 0, 0, 0, 0, 0]]"

definition repeat_example :: grid where
  "repeat_example =
     [[0, 0, 0, 3, 4, 5, 6, 7, 8],
      [0, 0, 0, 0, 0, 0, 0, 0, 0],
      [0, 0, 0, 0, 0, 0, 0, 0, 0],
      [0, 9, 2, 0, 0, 0, 0, 0, 0],
      [0, 0, 0, 0, 0, 0, 0, 0, 0],
      [0, 0, 0, 0, 0, 0, 0, 0, 0],
      [0, 0, 9, 0, 0, 0, 0, 0, 0],
      [0, 0, 0, 0, 0, 0, 0, 0, 0],
      [0, 0, 0, 0, 0, 0, 0, 0, 0]]"

section \<open>Bounds and value checks\<close>

text \<open>
  Claim C9. \<open>get\<close>, \<open>set\<close> and \<open>candidates\<close> fail with the range error
  "position out of bounds" whenever \<open>x\<close> or \<open>y\<close> lies outside 0..8; with coordinates in
  bounds, \<open>set\<close> fails with the range error "value must be 0-9" whenever the value lies
  outside 0..9 (the position is checked first); and none of the three returns normally
  on an out-of-range coordinate or value.
\<close>

theorem bounds_and_values_checked:
  "(x < 0 \<or> x > 8 \<or> y < 0 \<or> y > 8 \<longrightarrow>
      get_cell b x y = Inl (RangeError ''position out of bounds'')
    \<and> set_cell b x y v = Inl (RangeError ''position out of bounds'')
    \<and> candidates b x y = Inl (RangeError ''position out of bounds''))
   \<and> (\<not> (x < 0 \<or> x > 8 \<or> y < 0 \<or> y > 8) \<and> (v < 0 \<or> v > 9) \<longrightarrow>
      set_cell b x y v = Inl (RangeError ''value must be 0-9''))
   \<and> ((\<exists>r. get_cell b x y = Inr r) \<or> (\<exists>cs. candidates b x y = Inr cs) \<longrightarrow>
      0 \<le> x \<and> x \<le> 8 \<and> 0 \<le> y \<and> y \<le> 8)
   \<and> ((\<exists>b'. set_cell b x y v = Inr b') \<longrightarrow>
      0 \<le> x \<and> x \<le> 8 \<and> 0 \<le> y \<and> y \<le> 8 \<and> 0 \<le> v \<and> v \<le> 9)"
  by (auto simp: get_cell_def set_cell_def candidates_def out_of_bounds_def)

theorem bounds_and_values_checked_witness:
  "get_cell example_row (-1) 0 = Inl (RangeError ''position out of bounds'')
   \<and> set_cell example_row 0 9 5 = Inl (RangeError ''position out of bounds'')
   \<and> candidates example_row 9 (-1) = Inl (RangeError ''position out of bounds'')
   \<and> set_cell example_row 3 4 10 = Inl (RangeError ''value must be 0-9'')
   \<and> set_cell example_row 3 4 (-1) = Inl (RangeError ''value must be 0-9'')
   \<and> (\<exists>r. get_cell example_row 8 0 = Inr r)
   \<and> (\<exists>b'. set_cell example_row 8 0 9 = Inr b')"
  using bounds_and_values_checked [of "-1" 0 example_row 5]
    bounds_and_values_checked [of 0 9 example_row 5]
    bounds_and_values_checked [of 9 "-1" example_row 5]
    bounds_and_values_checked [of 3 4 example_row 10]
    bounds_and_values_checked [of 3 4 example_row "-1"]
    bounds_and_values_checked [of 8 0 example_row 9]
  by (simp add: get_cell_def set_cell_def out_of_bounds_def)

section \<open>Boards, groups and candidates\<close>

lemma rows_id [simp]: "rows b = b"
  by (simp add: rows_def)

lemma isUnique_distinct: "isUnique xs \<longleftrightarrow> distinct (filter (\<lambda>v. v \<noteq> 0) xs)"
  unfolding isUnique_def by (metis card_distinct distinct_card)

lemma nine_by_nineD:
  "nine_by_nine b \<Longrightarrow> length b = 9"
  "nine_by_nine b \<Longrightarrow> y < 9 \<Longrightarrow> length (b ! y) = 9"
  by (auto simp: nine_by_nine_def list_all_length)

lemma nine_by_nine_put: "nine_by_nine b \<Longrightarrow> nine_by_nine (put b x y v)"
proof -
  assume b: "nine_by_nine b"
  have "length (put b x y v ! n) = 9" if "n < 9" for n
    using b that by (cases "n = y") (auto simp: put_def nine_by_nineD)
  then show ?thesis using b by (simp add: nine_by_nine_def list_all_length put_def)
qed

lemma put_nth:
  "nine_by_nine b \<Longrightarrow> x < 9 \<Longrightarrow> y < 9 \<Longrightarrow> x' < 9 \<Longrightarrow> y' < 9 \<Longrightarrow>
   put b x y v ! y' ! x' = (if x' = x \<and> y' = y then v else b ! y' ! x')"
  by (auto simp: put_def nine_by_nineD nth_list_update)

lemma grid_eqI:
  assumes "nine_by_nine b" "nine_by_nine b'"
    and "\<And>x y. x < 9 \<Longrightarrow> y < 9 \<Longrightarrow> b ! y ! x = b' ! y ! x"
  shows "b = b'"
proof (rule nth_equalityI)
  show "length b = length b'" using assms by (simp add: nine_by_nineD)
next
  fix y assume "y < length b"
  then have y: "y < 9" using assms by (simp add: nine_by_nineD)
  show "b ! y = b' ! y"
    by (rule nth_equalityI) (use y assms in \<open>auto simp: nine_by_nineD\<close>)
qed

lemma upt_9: "[0..<9] = [0, 1, 2, 3, 4, 5, 6, 7, 8]"
  by (simp add: upt_rec)

lemma upt_3: "[0..<3] = [0, 1, 2]"
  by (simp add: upt_rec)

lemma columns_nth:
  "nine_by_nine b \<Longrightarrow> x < 9 \<Longrightarrow> columns b ! x = cell_values b (column_cells x)"
  by (simp add: columns_def transpose_matrix_def cell_values_def column_cells_def
      nine_by_nineD list_eq_iff_nth_eq)

lemma rows_nth:
  "nine_by_nine b \<Longrightarrow> y < 9 \<Longrightarrow> b ! y = cell_values b (row_cells y)"
  by (simp add: cell_values_def row_cells_def list_eq_iff_nth_eq nine_by_nineD)

lemma slice3: "a + 3 \<le> length xs \<Longrightarrow> slice xs a (a + 3) = [xs ! a, xs ! (a + 1), xs ! (a + 2)]"
proof -
  assume a: "a + 3 \<le> length xs"
  have "drop a xs = xs ! a # drop (Suc a) xs" using a by (simp add: Cons_nth_drop_Suc)
  moreover have "drop (Suc a) xs = xs ! (a + 1) # drop (Suc (Suc a)) xs"
    using a by (simp add: Cons_nth_drop_Suc)
  moreover have "drop (Suc (Suc a)) xs = xs ! (a + 2) # drop (Suc (Suc (Suc a))) xs"
    using a by (simp add: Cons_nth_drop_Suc)
  ultimately show ?thesis by (simp add: slice_def numeral_3_eq_3)
qed

lemma squares_nth:
  assumes "nine_by_nine b" "k < 9"
  shows "squares b ! k = cell_values b (box_cells k)"
proof -
  define a where "a = k div 3 * 3"
  define c where "c = k mod 3 * 3"
  have a: "a + 3 \<le> length b" and c: "c + 3 \<le> 9"
    using assms by (auto simp: nine_by_nineD a_def c_def)
  have r: "length (b ! (a + d)) = 9" if "d < 3" for d
    using assms(1) by (rule nine_by_nineD(2)) (use a that assms(1) in \<open>simp add: nine_by_nineD\<close>)
  have s: "slice (b ! (a + d)) c (c + 3) = [b ! (a + d) ! c, b ! (a + d) ! (c + 1), b ! (a + d) ! (c + 2)]"
    if "d < 3" for d
    by (rule slice3) (use r [OF that] c in simp)
  have "squares b ! k = concat (map (\<lambda>row. slice row c (c + 3)) (slice b a (a + 3)))"
    using assms(2) by (simp add: squares_def a_def c_def)
  also have "\<dots> = concat (map (\<lambda>row. slice row c (c + 3)) [b ! a, b ! (a + 1), b ! (a + 2)])"
    by (simp only: slice3 [OF a])
  also have "\<dots> = cell_values b (box_cells k)"
    using s [of 0] s [of 1] s [of 2]
    by (simp add: cell_values_def box_cells_def upt_3 a_def c_def mult.commute)
  finally show ?thesis .
qed

lemma groups_shape:
  "list_all (\<lambda>g. distinct g \<and> length g = 9 \<and> list_all (\<lambda>c. fst c < 9 \<and> snd c < 9) g) groups"
  by code_simp

lemma group_facts:
  assumes "g \<in> set groups"
  shows "distinct g" "length g = 9" "c \<in> set g \<Longrightarrow> fst c < 9 \<and> snd c < 9"
  using groups_shape assms by (auto simp: list_all_iff)

lemma cell_groups_all:
  "list_all (\<lambda>y. list_all (\<lambda>x.
      (x, y) \<in> set (row_cells y) \<and> (x, y) \<in> set (column_cells x)
      \<and> (x, y) \<in> set (box_cells (box_of x y)) \<and> box_of x y < 9) [0..<9]) [0..<9]"
  by code_simp

lemma cell_groups:
  assumes "x < 9" "y < 9"
  shows "(x, y) \<in> set (row_cells y)" "(x, y) \<in> set (column_cells x)"
    "(x, y) \<in> set (box_cells (box_of x y))" "box_of x y < 9"
  using cell_groups_all assms by (auto simp: list_all_iff)

lemma groups_mem:
  "i < 9 \<Longrightarrow> row_cells i \<in> set groups"
  "i < 9 \<Longrightarrow> column_cells i \<in> set groups"
  "i < 9 \<Longrightarrow> box_cells i \<in> set groups"
  by (auto simp: groups_def)

lemma groups_of_cell_all:
  "list_all (\<lambda>g. list_all (\<lambda>c.
      g = row_cells (snd c) \<or> g = column_cells (fst c) \<or> g = box_cells (box_of (fst c) (snd c))) g)
    groups"
  by code_simp

lemma groups_of_cell:
  "g \<in> set groups \<Longrightarrow> (x, y) \<in> set g \<Longrightarrow>
   g = row_cells y \<or> g = column_cells x \<or> g = box_cells (box_of x y)"
  using groups_of_cell_all by (fastforce simp: list_all_iff)

lemma in_row_cells: "v \<in> set (cell_values b (row_cells y)) \<longleftrightarrow> (\<exists>j<9. b ! y ! j = v)"
  by (auto simp: cell_values_def row_cells_def)

lemma in_column_cells: "v \<in> set (cell_values b (column_cells x)) \<longleftrightarrow> (\<exists>i<9. b ! i ! x = v)"
  by (auto simp: cell_values_def column_cells_def)

lemma box_of_mod: "x < 9 \<Longrightarrow> y < 9 \<Longrightarrow> box_of x y mod 3 = x div 3"
  by (simp add: box_of_def)

lemma box_of_div: "x < 9 \<Longrightarrow> y < 9 \<Longrightarrow> box_of x y div 3 = y div 3"
  by (simp add: box_of_def)

lemma box_cells_set:
  "(x', y') \<in> set (box_cells k) \<longleftrightarrow> (\<exists>dx<3. \<exists>dy<3. x' = 3 * (k mod 3) + dx \<and> y' = 3 * (k div 3) + dy)"
proof -
  have "set [0..<3] = {d::nat. d < 3}" by auto
  then show ?thesis unfolding box_cells_def by (simp add: image_iff set_concat) blast
qed

lemma third_decomp: "(\<exists>d<3. x' = 3 * q + d) \<longleftrightarrow> x' div 3 = (q::nat)"
proof
  assume "\<exists>d<3. x' = 3 * q + d"
  then obtain d where "d < 3" "x' = 3 * q + d" by blast
  then show "x' div 3 = q" by simp
next
  assume "x' div 3 = q"
  then have "x' = 3 * q + x' mod 3" using mult_div_mod_eq [of 3 x'] by simp
  moreover have "x' mod 3 < 3" by simp
  ultimately show "\<exists>d<3. x' = 3 * q + d" by blast
qed

lemma third_bound: "x < 9 \<Longrightarrow> x' div 3 = x div 3 \<Longrightarrow> x' < (9::nat)"
proof -
  assume a: "x < 9" "x' div 3 = x div 3"
  have "x div 3 < 3" using a(1) by simp
  then have "x' div 3 < 3" using a(2) by simp
  then show "x' < 9" by (simp add: div_less_iff_less_mult)
qed

lemma box_cells_mem:
  assumes "x < 9" "y < 9"
  shows "(x', y') \<in> set (box_cells (box_of x y))
     \<longleftrightarrow> x' < 9 \<and> y' < 9 \<and> y' div 3 = y div 3 \<and> x' div 3 = x div 3"
proof -
  have "(x', y') \<in> set (box_cells (box_of x y))
     \<longleftrightarrow> (\<exists>dx<3. x' = 3 * (x div 3) + dx) \<and> (\<exists>dy<3. y' = 3 * (y div 3) + dy)"
    unfolding box_cells_set box_of_mod [OF assms] box_of_div [OF assms] by blast
  also have "\<dots> \<longleftrightarrow> x' div 3 = x div 3 \<and> y' div 3 = y div 3"
    unfolding third_decomp ..
  also have "\<dots> \<longleftrightarrow> x' < 9 \<and> y' < 9 \<and> y' div 3 = y div 3 \<and> x' div 3 = x div 3"
    using third_bound [OF assms(1)] third_bound [OF assms(2)] by blast
  finally show ?thesis .
qed

lemma in_box_cells:
  assumes "x < 9" "y < 9"
  shows "v \<in> set (cell_values b (box_cells (box_of x y)))
     \<longleftrightarrow> (\<exists>i<9. \<exists>j<9. i div 3 = y div 3 \<and> j div 3 = x div 3 \<and> b ! i ! j = v)"
proof -
  have "v \<in> set (cell_values b (box_cells (box_of x y)))
     \<longleftrightarrow> (\<exists>j i. (j, i) \<in> set (box_cells (box_of x y)) \<and> b ! i ! j = v)"
    by (force simp: cell_values_def)
  then show ?thesis unfolding box_cells_mem [OF assms] by blast
qed

lemma cand_groups:
  assumes "x < 9" "y < 9"
  shows "cand b x y =
     (if b ! y ! x \<noteq> 0 then {}
      else {v. 1 \<le> v \<and> v \<le> 9
              \<and> v \<notin> set (cell_values b (row_cells y))
              \<and> v \<notin> set (cell_values b (column_cells x))
              \<and> v \<notin> set (cell_values b (box_cells (box_of x y)))})"
proof -
  have "(\<forall>j<9. b ! y ! j \<noteq> v) \<longleftrightarrow> v \<notin> set (cell_values b (row_cells y))" for v
    unfolding in_row_cells by blast
  moreover have "(\<forall>i<9. b ! i ! x \<noteq> v) \<longleftrightarrow> v \<notin> set (cell_values b (column_cells x))" for v
    unfolding in_column_cells by blast
  moreover have "(\<forall>i<9. \<forall>j<9. i div 3 = y div 3 \<and> j div 3 = x div 3 \<longrightarrow> b ! i ! j \<noteq> v)
      \<longleftrightarrow> v \<notin> set (cell_values b (box_cells (box_of x y)))" for v
    unfolding in_box_cells [OF assms] by blast
  ultimately show ?thesis unfolding cand_def by simp
qed

lemma distinct_filter_map:
  "distinct g \<Longrightarrow>
   distinct (filter P (map f g)) \<longleftrightarrow>
   (\<forall>c\<in>set g. \<forall>c'\<in>set g. c \<noteq> c' \<longrightarrow> P (f c) \<longrightarrow> f c \<noteq> f c')"
proof (induction g)
  case Nil
  then show ?case by simp
next
  case (Cons a g)
  then have IH: "distinct (filter P (map f g)) \<longleftrightarrow>
      (\<forall>c\<in>set g. \<forall>c'\<in>set g. c \<noteq> c' \<longrightarrow> P (f c) \<longrightarrow> f c \<noteq> f c')"
    by simp
  have a: "a \<notin> set g" using Cons.prems by simp
  show ?case
  proof (cases "P (f a)")
    case True
    have "distinct (filter P (map f (a # g))) \<longleftrightarrow>
        (\<forall>c\<in>set g. f c \<noteq> f a) \<and> distinct (filter P (map f g))"
      using True by (auto simp: image_iff)
    also have "\<dots> \<longleftrightarrow> (\<forall>c\<in>set (a # g). \<forall>c'\<in>set (a # g). c \<noteq> c' \<longrightarrow> P (f c) \<longrightarrow> f c \<noteq> f c')"
      unfolding IH using True a by (auto; metis)
    finally show ?thesis .
  next
    case False
    have "distinct (filter P (map f (a # g))) \<longleftrightarrow> distinct (filter P (map f g))"
      using False by simp
    also have "\<dots> \<longleftrightarrow> (\<forall>c\<in>set (a # g). \<forall>c'\<in>set (a # g). c \<noteq> c' \<longrightarrow> P (f c) \<longrightarrow> f c \<noteq> f c')"
      unfolding IH using False a by (auto; metis)
    finally show ?thesis .
  qed
qed

lemma isUnique_cells:
  "distinct g \<Longrightarrow>
   isUnique (cell_values b g) \<longleftrightarrow>
   (\<forall>c\<in>set g. \<forall>c'\<in>set g. c \<noteq> c' \<longrightarrow> b ! snd c ! fst c \<noteq> 0
        \<longrightarrow> b ! snd c ! fst c \<noteq> b ! snd c' ! fst c')"
  unfolding isUnique_distinct cell_values_def by (rule distinct_filter_map)

lemma okay_groups:
  assumes "nine_by_nine b"
  shows "okay b \<longleftrightarrow> (\<forall>g\<in>set groups. isUnique (cell_values b g))"
proof -
  have 1: "list_all isUnique (rows b) \<longleftrightarrow> (\<forall>i<9. isUnique (cell_values b (row_cells i)))"
    using assms by (simp add: list_all_length nine_by_nineD rows_nth [symmetric])
  have "length (columns b) = 9"
    using assms by (simp add: columns_def transpose_matrix_def nine_by_nineD)
  then have 2: "list_all isUnique (columns b) \<longleftrightarrow> (\<forall>i<9. isUnique (cell_values b (column_cells i)))"
    using assms by (simp add: list_all_length columns_nth)
  have "length (squares b) = 9" by (simp add: squares_def)
  then have 3: "list_all isUnique (squares b) \<longleftrightarrow> (\<forall>i<9. isUnique (cell_values b (box_cells i)))"
    using assms by (simp add: list_all_length squares_nth)
  show ?thesis
    unfolding okay_def 1 2 3 by (auto simp: groups_def)
qed

lemma extends_iff: "extends s b \<longleftrightarrow> (\<forall>y<9. \<forall>x<9. b ! y ! x \<noteq> 0 \<longrightarrow> s ! y ! x = b ! y ! x)"
  by (auto simp: extends_def list_all_iff)

lemma in_range_iff:
  assumes "nine_by_nine b"
  shows "in_range b \<longleftrightarrow> (\<forall>y<9. \<forall>x<9. 0 \<le> b ! y ! x \<and> b ! y ! x \<le> 9)"
proof
  assume r: "in_range b"
  show "\<forall>y<9. \<forall>x<9. 0 \<le> b ! y ! x \<and> b ! y ! x \<le> 9"
  proof (intro allI impI)
    fix y x :: nat assume "y < 9" "x < 9"
    then have "b ! y \<in> set b" "b ! y ! x \<in> set (b ! y)"
      using assms by (simp_all add: nine_by_nineD)
    then have "b ! y ! x \<in> set (concat b)" by auto
    then show "0 \<le> b ! y ! x \<and> b ! y ! x \<le> 9"
      using r unfolding in_range_def list_all_iff by blast
  qed
next
  assume c: "\<forall>y<9. \<forall>x<9. 0 \<le> b ! y ! x \<and> b ! y ! x \<le> 9"
  have "0 \<le> v \<and> v \<le> 9" if "v \<in> set (concat b)" for v
  proof -
    from that obtain row where row: "row \<in> set b" "v \<in> set row" by auto
    then obtain y where y: "y < 9" "row = b ! y"
      using assms by (metis in_set_conv_nth nine_by_nineD(1))
    then obtain x where "x < 9" "v = b ! y ! x"
      using row assms by (metis in_set_conv_nth nine_by_nineD(2))
    then show ?thesis using c y by simp
  qed
  then show "in_range b" by (simp add: in_range_def list_all_iff)
qed

lemma scenario_B_shape: "nine_by_nine scenario_B" "in_range scenario_B"
  by (simp_all add: nine_by_nine_def in_range_def scenario_B_def)

lemma all_nonzero_iff:
  assumes "nine_by_nine b"
  shows "list_all (\<lambda>cell. cell \<noteq> 0) (concat b) \<longleftrightarrow> (\<forall>y<9. \<forall>x<9. b ! y ! x \<noteq> 0)"
proof
  assume r: "list_all (\<lambda>cell. cell \<noteq> 0) (concat b)"
  show "\<forall>y<9. \<forall>x<9. b ! y ! x \<noteq> 0"
  proof (intro allI impI)
    fix y x :: nat assume "y < 9" "x < 9"
    then have "b ! y \<in> set b" "b ! y ! x \<in> set (b ! y)"
      using assms by (simp_all add: nine_by_nineD)
    then have "b ! y ! x \<in> set (concat b)" by auto
    then show "b ! y ! x \<noteq> 0"
      using r unfolding list_all_iff by blast
  qed
next
  assume c: "\<forall>y<9. \<forall>x<9. b ! y ! x \<noteq> 0"
  have "v \<noteq> 0" if "v \<in> set (concat b)" for v
  proof -
    from that obtain row where row: "row \<in> set b" "v \<in> set row" by auto
    then obtain y where y: "y < 9" "row = b ! y"
      using assms by (metis in_set_conv_nth nine_by_nineD(1))
    then obtain x where "x < 9" "v = b ! y ! x"
      using row assms by (metis in_set_conv_nth nine_by_nineD(2))
    then show ?thesis using c y by simp
  qed
  then show "list_all (\<lambda>cell. cell \<noteq> 0) (concat b)" by (simp add: list_all_iff)
qed

lemma in_range_put:
  assumes "nine_by_nine b" "in_range b" "x < 9" "y < 9" "0 \<le> v" "v \<le> 9"
  shows "in_range (put b x y v)"
  using assms
  by (simp add: in_range_iff nine_by_nine_put put_nth)

lemma one_to_nine: "map (\<lambda>v. int v + 1) [0..<9] = [1, 2, 3, 4, 5, 6, 7, 8, 9]"
  by (simp add: upt_9)

lemma quot_nonneg: "0 \<le> a \<Longrightarrow> quot a n = a div n"
  by (simp add: quot_def)

lemma box_of_int:
  "0 \<le> x \<Longrightarrow> 0 \<le> y \<Longrightarrow> nat (quot y 3 * 3 + quot x 3) = box_of (nat x) (nat y)"
  by (simp add: quot_nonneg box_of_def nat_add_distrib nat_mult_distrib nat_div_distrib)

lemma candidates_cand:
  assumes "nine_by_nine b" "0 \<le> x" "x \<le> 8" "0 \<le> y" "y \<le> 8"
  shows "\<exists>cs. candidates b x y = Inr cs \<and> set cs = cand b (nat x) (nat y)
            \<and> sorted cs \<and> distinct cs"
proof -
  have x: "nat x < 9" and y: "nat y < 9" using assms by auto
  have sq: "squares b ! nat (quot y 3 * 3 + quot x 3)
      = cell_values b (box_cells (box_of (nat x) (nat y)))"
    using assms(1) x y by (simp add: box_of_int assms squares_nth cell_groups(4))
  have co: "columns b ! nat x = cell_values b (column_cells (nat x))"
    using assms(1) x by (rule columns_nth)
  have ro: "rows b ! nat y = cell_values b (row_cells (nat y))"
    using assms(1) y by (simp add: rows_nth [symmetric])
  have nb: "\<not> out_of_bounds x y" using assms by (simp add: out_of_bounds_def)
  show ?thesis
  proof (cases "b ! nat y ! nat x \<noteq> 0")
    case True
    then show ?thesis using nb by (simp add: candidates_def cand_def)
  next
    case False
    let ?P = "\<lambda>v. v \<notin> set (cell_values b (row_cells (nat y)))
          \<and> v \<notin> set (cell_values b (column_cells (nat x)))
          \<and> v \<notin> set (cell_values b (box_cells (box_of (nat x) (nat y))))"
    have c: "candidates b x y = Inr (filter ?P [1, 2, 3, 4, 5, 6, 7, 8, 9])"
      using nb False unfolding candidates_def sq co ro one_to_nine
      by (simp only: if_False if_True not_not filter_filter conj_commute conj_left_commute simp_thms)
    have s: "set (filter ?P [1, 2, 3, 4, 5, 6, 7, 8, 9]) = cand b (nat x) (nat y)"
    proof -
      have "set [1, 2, 3, 4, 5, 6, 7, 8, 9] = {v::int. 1 \<le> v \<and> v \<le> 9}" by auto
      then show ?thesis
        using False unfolding cand_groups [OF x y] set_filter by auto
    qed
    have "sorted (filter ?P [1, 2, 3, 4, 5, 6, 7, 8, 9])"
      by (rule sorted_wrt_filter) simp
    moreover have "distinct (filter ?P [1, 2, 3, 4, 5, 6, 7, 8, 9])"
      by (rule distinct_filter) simp
    ultimately show ?thesis using c s by blast
  qed
qed

text \<open>
  Claim C7. On a 9 by 9 board and in-bounds coordinates, \<open>candidates\<close> returns the
  empty array when the cell is filled; otherwise it returns, in ascending order and
  without repetition, exactly the values 1 to 9 that occur neither in row \<open>y\<close>, nor in
  column \<open>x\<close>, nor in the 3 by 3 box of the cell.
\<close>

theorem candidates_spec:
  assumes "nine_by_nine b" "0 \<le> x" "x \<le> 8" "0 \<le> y" "y \<le> 8"
  shows "\<exists>cs. candidates b x y = Inr cs \<and> sorted cs \<and> distinct cs
     \<and> (b ! nat y ! nat x \<noteq> 0 \<longrightarrow> cs = [])
     \<and> (b ! nat y ! nat x = 0 \<longrightarrow>
          set cs = {v. 1 \<le> v \<and> v \<le> 9
                     \<and> (\<forall>j<9. b ! nat y ! j \<noteq> v)
                     \<and> (\<forall>i<9. b ! i ! nat x \<noteq> v)
                     \<and> (\<forall>i<9. \<forall>j<9. i div 3 = nat y div 3 \<and> j div 3 = nat x div 3
                            \<longrightarrow> b ! i ! j \<noteq> v)})"
proof -
  obtain cs where cs: "candidates b x y = Inr cs" "set cs = cand b (nat x) (nat y)"
      "sorted cs" "distinct cs"
    using candidates_cand [OF assms] by blast
  have "cs = []" if "b ! nat y ! nat x \<noteq> 0" using cs(2) that by (simp add: cand_def)
  moreover have "set cs = {v. 1 \<le> v \<and> v \<le> 9
                     \<and> (\<forall>j<9. b ! nat y ! j \<noteq> v)
                     \<and> (\<forall>i<9. b ! i ! nat x \<noteq> v)
                     \<and> (\<forall>i<9. \<forall>j<9. i div 3 = nat y div 3 \<and> j div 3 = nat x div 3
                            \<longrightarrow> b ! i ! j \<noteq> v)}" if "b ! nat y ! nat x = 0"
    using cs(2) that by (simp add: cand_def)
  ultimately show ?thesis using cs(1,3,4) by blast
qed

theorem candidates_spec_witness:
  "nine_by_nine scenario_B
   \<and> (\<exists>cs. candidates scenario_B 1 0 = Inr cs \<and> sorted cs \<and> distinct cs
     \<and> (scenario_B ! nat 0 ! nat 1 \<noteq> 0 \<longrightarrow> cs = [])
     \<and> (scenario_B ! nat 0 ! nat 1 = 0 \<longrightarrow>
          set cs = {v. 1 \<le> v \<and> v \<le> 9
                     \<and> (\<forall>j<9. scenario_B ! nat 0 ! j \<noteq> v)
                     \<and> (\<forall>i<9. scenario_B ! i ! nat 1 \<noteq> v)
                     \<and> (\<forall>i<9. \<forall>j<9. i div 3 = nat 0 div 3 \<and> j div 3 = nat 1 div 3
                            \<longrightarrow> scenario_B ! i ! j \<noteq> v)}))"
proof -
  have "(0 :: int) \<le> 1" "(1 :: int) \<le> 8" "(0 :: int) \<le> 0" "(0 :: int) \<le> 8" by simp_all
  then show ?thesis
    using candidates_spec [OF scenario_B_shape(1), of 1 0] scenario_B_shape(1) by blast
qed

section \<open>Completions: what a solved board forces\<close>

lemma okay_cells:
  assumes "nine_by_nine s" "okay s" "g \<in> set groups" "c \<in> set g" "c' \<in> set g" "c \<noteq> c'"
    and "s ! snd c ! fst c \<noteq> 0"
  shows "s ! snd c ! fst c \<noteq> s ! snd c' ! fst c'"
proof -
  have "isUnique (cell_values s g)" using assms(1-3) by (simp add: okay_groups)
  then show ?thesis
    using assms(3-7) by (simp add: isUnique_cells group_facts(1))
qed

lemma completionD:
  assumes "completion s b"
  shows "nine_by_nine s" "okay s"
    "x < 9 \<Longrightarrow> y < 9 \<Longrightarrow> 1 \<le> s ! y ! x \<and> s ! y ! x \<le> 9"
    "x < 9 \<Longrightarrow> y < 9 \<Longrightarrow> b ! y ! x \<noteq> 0 \<Longrightarrow> s ! y ! x = b ! y ! x"
proof -
  show n: "nine_by_nine s" and o: "okay s" using assms by (simp_all add: completion_def solved_def)
  have nz: "\<forall>y<9. \<forall>x<9. s ! y ! x \<noteq> 0"
    using assms n by (simp add: completion_def solved_def all_nonzero_iff)
  have rg: "\<forall>y<9. \<forall>x<9. 0 \<le> s ! y ! x \<and> s ! y ! x \<le> 9"
    using assms n by (simp add: completion_def in_range_iff)
  show "x < 9 \<Longrightarrow> y < 9 \<Longrightarrow> 1 \<le> s ! y ! x \<and> s ! y ! x \<le> 9"
    using nz rg by (metis add.commute add.right_neutral add1_zle_eq order_less_le)
  show "x < 9 \<Longrightarrow> y < 9 \<Longrightarrow> b ! y ! x \<noteq> 0 \<Longrightarrow> s ! y ! x = b ! y ! x"
    using assms by (simp add: completion_def extends_iff)
qed

lemma completion_covers:
  assumes "completion s b" "g \<in> set groups" "1 \<le> v" "v \<le> 9"
  shows "\<exists>c\<in>set g. s ! snd c ! fst c = v"
proof -
  let ?f = "\<lambda>c. s ! snd c ! fst c"
  note g = group_facts [OF assms(2)]
  have inj: "inj_on ?f (set g)"
  proof (rule inj_onI)
    fix c c' assume c: "c \<in> set g" "c' \<in> set g" "?f c = ?f c'"
    have "?f c \<noteq> 0" using completionD(3) [OF assms(1), of "fst c" "snd c"] g(3) [OF c(1)] by simp
    then show "c = c'"
      using okay_cells [OF completionD(1,2) [OF assms(1)] assms(2) c(1,2)] c(3) by blast
  qed
  have "?f ` set g \<subseteq> {1..9}"
    using completionD(3) [OF assms(1)] g(3) by fastforce
  moreover have "card (?f ` set g) = 9"
    using inj g(1,2) by (simp add: card_image distinct_card)
  ultimately have "?f ` set g = {1..9}"
    by (intro card_subset_eq) auto
  then have "v \<in> ?f ` set g" using assms(3,4) by simp
  then show ?thesis by auto
qed

lemma completion_in_cand:
  assumes "completion s b" "x < 9" "y < 9" "b ! y ! x = 0"
  shows "s ! y ! x \<in> cand b x y"
proof -
  have clash: "s ! y ! x \<notin> set (cell_values b g)" if g: "g \<in> set groups" "(x, y) \<in> set g" for g
  proof
    assume "s ! y ! x \<in> set (cell_values b g)"
    then obtain c where c: "c \<in> set g" "b ! snd c ! fst c = s ! y ! x"
      by (auto simp: cell_values_def)
    have nz: "s ! y ! x \<noteq> 0" using completionD(3) [OF assms(1-3)] by simp
    then have "c \<noteq> (x, y)" using c(2) assms(4) by auto
    moreover have "s ! snd c ! fst c = s ! y ! x"
      using completionD(4) [OF assms(1), of "fst c" "snd c"] group_facts(3) [OF g(1) c(1)] c(2) nz
      by simp
    ultimately show False
      using okay_cells [OF completionD(1,2) [OF assms(1)] g(1) g(2) c(1)] nz by simp
  qed
  show ?thesis
    using completionD(3) [OF assms(1-3)] assms(2-4) clash
    by (simp add: cand_groups cell_groups groups_mem)
qed

lemma hidden_single_sound:
  assumes "completion s b" "g \<in> set groups" "(x, y) \<in> set g" "v \<in> cand b x y"
    and "\<forall>c\<in>set g. c \<noteq> (x, y) \<longrightarrow> v \<notin> cand b (fst c) (snd c)"
  shows "s ! y ! x = v"
proof -
  have xy: "x < 9" "y < 9" using group_facts(3) [OF assms(2,3)] by simp_all
  have v: "1 \<le> v" "v \<le> 9" "b ! y ! x = 0" "v \<notin> set (cell_values b g)"
    using assms(4) groups_of_cell [OF assms(2,3)]
    by (auto simp: cand_groups [OF xy] split: if_splits)
  obtain c where c: "c \<in> set g" "s ! snd c ! fst c = v"
    using completion_covers [OF assms(1,2) v(1,2)] by blast
  have cb: "fst c < 9" "snd c < 9" using group_facts(3) [OF assms(2) c(1)] by simp_all
  have "b ! snd c ! fst c = 0"
  proof (rule ccontr)
    assume "b ! snd c ! fst c \<noteq> 0"
    then have "b ! snd c ! fst c = v" using completionD(4) [OF assms(1) cb] c(2) by simp
    then show False using v(4) c(1) by (force simp: cell_values_def)
  qed
  then have "v \<in> cand b (fst c) (snd c)"
    using completion_in_cand [OF assms(1) cb] c(2) by simp
  then have "c = (x, y)" using assms(5) c(1) by blast
  then show ?thesis using c(2) by simp
qed

lemma completion_okay:
  assumes "completion s b" "nine_by_nine b"
  shows "okay b"
proof -
  have "isUnique (cell_values b g)" if g: "g \<in> set groups" for g
    unfolding isUnique_cells [OF group_facts(1) [OF g]]
  proof (intro ballI impI)
    fix c c' assume c: "c \<in> set g" "c' \<in> set g" "c \<noteq> c'" "b ! snd c ! fst c \<noteq> 0"
    have cb: "fst c < 9" "snd c < 9" "fst c' < 9" "snd c' < 9"
      using group_facts(3) [OF g] c(1,2) by simp_all
    have sc: "s ! snd c ! fst c = b ! snd c ! fst c"
      using completionD(4) [OF assms(1) cb(1,2) c(4)] .
    show "b ! snd c ! fst c \<noteq> b ! snd c' ! fst c'"
    proof
      assume e: "b ! snd c ! fst c = b ! snd c' ! fst c'"
      then have "s ! snd c' ! fst c' = b ! snd c' ! fst c'"
        using completionD(4) [OF assms(1) cb(3,4)] c(4) by simp
      then show False
        using okay_cells [OF completionD(1,2) [OF assms(1)] g c(1,2,3)] sc e c(4) by simp
    qed
  qed
  then show ?thesis using assms(2) by (simp add: okay_groups)
qed

section \<open>Filling forced cells\<close>

lemma fillsD:
  assumes "fills b b' m"
  shows "nine_by_nine b'"
    "c \<in> set m \<Longrightarrow> \<not> out_of_bounds (fst c) (snd c)"
    "x < 9 \<Longrightarrow> y < 9 \<Longrightarrow> (int x, int y) \<in> set m \<Longrightarrow>
       b ! y ! x = 0 \<and> 1 \<le> b' ! y ! x \<and> b' ! y ! x \<le> 9 \<and> forced b x y (b' ! y ! x)"
    "x < 9 \<Longrightarrow> y < 9 \<Longrightarrow> (int x, int y) \<notin> set m \<Longrightarrow> b' ! y ! x = b ! y ! x"
  using assms unfolding fills_def by (blast, blast, metis, metis)

lemma fillsI:
  assumes "nine_by_nine b'"
    and "\<And>c. c \<in> set m \<Longrightarrow> \<not> out_of_bounds (fst c) (snd c)"
    and "\<And>x y. x < 9 \<Longrightarrow> y < 9 \<Longrightarrow> (int x, int y) \<in> set m \<Longrightarrow>
       b ! y ! x = 0 \<and> 1 \<le> b' ! y ! x \<and> b' ! y ! x \<le> 9 \<and> forced b x y (b' ! y ! x)"
    and "\<And>x y. x < 9 \<Longrightarrow> y < 9 \<Longrightarrow> (int x, int y) \<notin> set m \<Longrightarrow> b' ! y ! x = b ! y ! x"
  shows "fills b b' m"
  unfolding fills_def using assms by simp

lemma fills_refl: "nine_by_nine b \<Longrightarrow> fills b b []"
  by (simp add: fills_def)

lemma fills_extends:
  assumes "fills b b' m" "x < 9" "y < 9" "b ! y ! x \<noteq> 0"
  shows "b' ! y ! x = b ! y ! x"
  using fillsD(3,4) [OF assms(1-3)] assms(4) by blast

lemma fills_completion:
  assumes "fills b b' m" "completion s b"
  shows "completion s b'"
proof -
  have "s ! y ! x = b' ! y ! x" if "x < 9" "y < 9" "b' ! y ! x \<noteq> 0" for x y
  proof (cases "(int x, int y) \<in> set m")
    case True
    then show ?thesis using fillsD(3) [OF assms(1) that(1,2)] assms(2) by (simp add: forced_def)
  next
    case False
    then show ?thesis
      using fillsD(4) [OF assms(1) that(1,2)] completionD(4) [OF assms(2) that(1,2)] that(3) by simp
  qed
  then show ?thesis using assms(2) by (simp add: completion_def extends_iff)
qed

lemma fills_trans:
  assumes "fills b b1 m1" "fills b1 b2 m2"
  shows "fills b b2 (m1 @ m2)"
proof (rule fillsI)
  show "nine_by_nine b2" using assms(2) by (rule fillsD(1))
next
  fix c assume "c \<in> set (m1 @ m2)"
  then show "\<not> out_of_bounds (fst c) (snd c)"
    using fillsD(2) [OF assms(1)] fillsD(2) [OF assms(2)] by auto
next
  fix x y :: nat assume xy: "x < 9" "y < 9" and "(int x, int y) \<in> set (m1 @ m2)"
  then consider "(int x, int y) \<in> set m2" | "(int x, int y) \<notin> set m2" "(int x, int y) \<in> set m1"
    by auto
  then show "b ! y ! x = 0 \<and> 1 \<le> b2 ! y ! x \<and> b2 ! y ! x \<le> 9 \<and> forced b x y (b2 ! y ! x)"
  proof cases
    case 1
    note f2 = fillsD(3) [OF assms(2) xy 1]
    have "b ! y ! x = 0"
    proof (rule ccontr)
      assume "b ! y ! x \<noteq> 0"
      then show False using fills_extends [OF assms(1) xy] f2 by simp
    qed
    moreover have "forced b x y (b2 ! y ! x)"
      using f2 fills_completion [OF assms(1)] by (simp add: forced_def)
    ultimately show ?thesis using f2 by simp
  next
    case 2
    then show ?thesis
      using fillsD(3) [OF assms(1) xy 2(2)] fillsD(4) [OF assms(2) xy 2(1)] by simp
  qed
next
  fix x y :: nat assume xy: "x < 9" "y < 9" and "(int x, int y) \<notin> set (m1 @ m2)"
  then show "b2 ! y ! x = b ! y ! x"
    using fillsD(4) [OF assms(1) xy] fillsD(4) [OF assms(2) xy] by simp
qed

lemma fills_in_range:
  assumes "fills b b' m" "nine_by_nine b" "in_range b"
  shows "in_range b'"
  unfolding in_range_iff [OF fillsD(1) [OF assms(1)]]
proof (intro allI impI)
  fix y x :: nat assume xy: "y < 9" "x < 9"
  show "0 \<le> b' ! y ! x \<and> b' ! y ! x \<le> 9"
  proof (cases "(int x, int y) \<in> set m")
    case True
    then show ?thesis using fillsD(3) [OF assms(1) xy(2,1)] by simp
  next
    case False
    then show ?thesis
      using fillsD(4) [OF assms(1) xy(2,1)] assms(2,3) xy by (simp add: in_range_iff)
  qed
qed

lemma fills_single:
  assumes "nine_by_nine b" "x < 9" "y < 9" "b ! y ! x = 0" "1 \<le> v" "v \<le> 9" "forced b x y v"
  shows "fills b (put b x y v) [(int x, int y)]"
proof (rule fillsI)
  show "nine_by_nine (put b x y v)" using assms(1) by (rule nine_by_nine_put)
next
  fix c assume "c \<in> set [(int x, int y)]"
  then show "\<not> out_of_bounds (fst c) (snd c)" using assms(2,3) by (simp add: out_of_bounds_def)
next
  fix x' y' :: nat assume "x' < 9" "y' < 9" "(int x', int y') \<in> set [(int x, int y)]"
  then show "b ! y' ! x' = 0 \<and> 1 \<le> put b x y v ! y' ! x' \<and> put b x y v ! y' ! x' \<le> 9
      \<and> forced b x' y' (put b x y v ! y' ! x')"
    using assms by (simp add: put_nth)
next
  fix x' y' :: nat assume "x' < 9" "y' < 9" "(int x', int y') \<notin> set [(int x, int y)]"
  then show "put b x y v ! y' ! x' = b ! y' ! x'"
    using assms by (simp add: put_nth)
qed

lemma set_cell_put:
  assumes "0 \<le> x" "x \<le> 8" "0 \<le> y" "y \<le> 8" "0 \<le> v" "v \<le> 9"
  shows "set_cell b x y v = Inr (put b (nat x) (nat y) v)"
  using assms by (simp add: set_cell_def out_of_bounds_def put_def)

text \<open>
  Claim C10. With coordinates in bounds and a value between 0 and 9, \<open>set\<close> succeeds
  and stores the value, whatever the rest of the board holds. So one successful \<open>set\<close>
  can turn an okay board into one that is not: writing a second 5 into the first row of
  the example board.
\<close>

theorem set_without_legality_check:
  "(0 \<le> x \<and> x \<le> 8 \<and> 0 \<le> y \<and> y \<le> 8 \<and> 0 \<le> v \<and> v \<le> 9 \<longrightarrow>
      set_cell b x y v = Inr (b[nat y := (b ! nat y)[nat x := v]])
      \<and> (nine_by_nine b \<longrightarrow> get_cell (b[nat y := (b ! nat y)[nat x := v]]) x y = Inr v))
   \<and> okay example_row
   \<and> set_cell example_row 1 0 5 = Inr (put example_row 1 0 5)
   \<and> \<not> okay (put example_row 1 0 5)"
proof -
  have 1: "set_cell b x y v = Inr (b[nat y := (b ! nat y)[nat x := v]])"
    if "0 \<le> x \<and> x \<le> 8 \<and> 0 \<le> y \<and> y \<le> 8 \<and> 0 \<le> v \<and> v \<le> 9"
    using that set_cell_put [of x y v b] by (simp add: put_def)
  have 2: "get_cell (b[nat y := (b ! nat y)[nat x := v]]) x y = Inr v"
    if "0 \<le> x \<and> x \<le> 8 \<and> 0 \<le> y \<and> y \<le> 8" "nine_by_nine b"
  proof -
    have "nat x < 9" "nat y < 9" using that(1) by auto
    then show ?thesis
      using that put_nth [of b "nat x" "nat y" "nat x" "nat y" v]
      by (simp add: get_cell_def out_of_bounds_def put_def)
  qed
  have 3: "okay example_row" "set_cell example_row 1 0 5 = Inr (put example_row 1 0 5)"
      "\<not> okay (put example_row 1 0 5)"
    by code_simp+
  show ?thesis using 1 2 3 by blast
qed

theorem set_without_legality_check_witness:
  "nine_by_nine example_row
   \<and> set_cell example_row 1 0 5 = Inr (example_row[nat 0 := (example_row ! nat 0)[nat 1 := 5]])
   \<and> get_cell (example_row[nat 0 := (example_row ! nat 0)[nat 1 := 5]]) 1 0 = Inr 5"
proof -
  have n: "nine_by_nine example_row" by code_simp
  have "(0 :: int) \<le> 1 \<and> (1 :: int) \<le> 8 \<and> (0 :: int) \<le> 0 \<and> (0 :: int) \<le> 8
      \<and> (0 :: int) \<le> 5 \<and> (5 :: int) \<le> 9" by simp
  then show ?thesis using set_without_legality_check [of 1 0 5 example_row] n by blast
qed

section \<open>Rule 1\<close>

lemma forEach_append:
  "forEach f (xs @ ys) s = (case forEach f xs s of Inl e \<Rightarrow> Inl e | Inr s' \<Rightarrow> forEach f ys s')"
  by (induction xs arbitrary: s) (auto split: sum.splits)

lemma forEach_map: "forEach f (map g xs) s = forEach (\<lambda>x. f (g x)) xs s"
  by (induction xs arbitrary: s) (auto split: sum.splits)

lemma forEach_nested:
  "forEach (\<lambda>i. forEach (\<lambda>j. f (j, i)) js) is s
   = forEach f (concat (map (\<lambda>i. map (\<lambda>j. (j, i)) js) is)) s"
  by (induction "is" arbitrary: s) (auto simp: forEach_append forEach_map split: sum.splits)

lemma forEach_fold:
  assumes "\<And>x s. x \<in> set xs \<Longrightarrow> I s \<Longrightarrow> f x s = Inr (g x s) \<and> I (g x s)" "I s"
  shows "forEach f xs s = Inr (fold g xs s) \<and> I (fold g xs s)"
  using assms by (induction xs arbitrary: s) auto

lemma rule1_cell_exact:
  assumes "nine_by_nine b" "0 \<le> j" "j \<le> 8" "0 \<le> i" "i \<le> 8"
  shows "rule1_cell i j (b, m) = Inr (naked_single (j, i) (b, m))"
proof -
  obtain cs where cs: "candidates b j i = Inr cs" "set cs = cand b (nat j) (nat i)" "distinct cs"
    using candidates_cand [OF assms] by blast
  have len: "length cs = card (cand b (nat j) (nat i))"
    using cs(2,3) by (metis distinct_card)
  show ?thesis
  proof (cases "length cs = 1")
    case False
    then show ?thesis using cs(1) len by (simp add: rule1_cell_def naked_single_def)
  next
    case True
    then obtain v where v: "cs = [v]" by (cases cs) auto
    then have c: "cand b (nat j) (nat i) = {v}" using cs(2) by simp
    have "1 \<le> v \<and> v \<le> 9" using c by (auto simp: cand_def split: if_splits)
    then have "set_cell b j i v = Inr (put b (nat j) (nat i) v)"
      using assms by (simp add: set_cell_put)
    then show ?thesis using cs(1) v c by (simp add: rule1_cell_def naked_single_def)
  qed
qed

lemma naked_single_fills:
  assumes "nine_by_nine b" "0 \<le> fst c" "fst c \<le> 8" "0 \<le> snd c" "snd c \<le> 8"
  shows "\<exists>m1. naked_single c (b, m) = (fst (naked_single c (b, m)), m @ m1)
            \<and> fills b (fst (naked_single c (b, m))) m1"
proof (cases "card (cand b (nat (fst c)) (nat (snd c))) = 1")
  case False
  then show ?thesis using fills_refl [OF assms(1)] by (simp add: naked_single_def)
next
  case True
  then obtain v where v: "cand b (nat (fst c)) (nat (snd c)) = {v}"
    by (auto simp: card_1_singleton_iff)
  have xy: "nat (fst c) < 9" "nat (snd c) < 9" using assms by auto
  have z: "b ! nat (snd c) ! nat (fst c) = 0" and r: "1 \<le> v" "v \<le> 9"
    using v by (auto simp: cand_def split: if_splits)
  have "forced b (nat (fst c)) (nat (snd c)) v"
    unfolding forced_def using completion_in_cand [OF _ xy z] v by auto
  then have "fills b (put b (nat (fst c)) (nat (snd c)) v) [(int (nat (fst c)), int (nat (snd c)))]"
    using assms(1) xy z r by (intro fills_single)
  moreover have "(int (nat (fst c)), int (nat (snd c))) = c" using assms by simp
  ultimately show ?thesis using True v by (simp add: naked_single_def)
qed

lemma rule1_scan_bounds:
  assumes "- 1 \<le> x" "0 \<le> y" "c \<in> set (rule1_scan x y)"
  shows "0 \<le> fst c \<and> fst c \<le> 8 \<and> 0 \<le> snd c \<and> snd c \<le> 8"
  using assms by (auto simp: rule1_scan_def)

lemma naked_single_step:
  assumes "fills b0 (fst s) (snd s)" "0 \<le> fst c" "fst c \<le> 8" "0 \<le> snd c" "snd c \<le> 8"
  shows "fills b0 (fst (naked_single c s)) (snd (naked_single c s))"
proof -
  obtain b m where s: "s = (b, m)" by (cases s)
  have n: "nine_by_nine b" using assms(1) fillsD(1) unfolding s by auto
  obtain m1 where m1: "naked_single c (b, m) = (fst (naked_single c (b, m)), m @ m1)"
      "fills b (fst (naked_single c (b, m))) m1"
    using naked_single_fills [OF n assms(2-5), of m] by blast
  have "fills b0 (fst (naked_single c (b, m))) (m @ m1)"
    using assms(1) m1(2) unfolding s by (intro fills_trans [of b0 b m]) simp_all
  then show ?thesis unfolding s by (metis m1(1) snd_conv)
qed

lemma fold_naked_single_fills:
  assumes "fills b0 (fst s) (snd s)"
    and "\<forall>c\<in>set cs. 0 \<le> fst c \<and> fst c \<le> 8 \<and> 0 \<le> snd c \<and> snd c \<le> 8"
  shows "fills b0 (fst (fold naked_single cs s)) (snd (fold naked_single cs s))"
  using assms
proof (induction cs arbitrary: s)
  case Nil
  then show ?case by simp
next
  case (Cons c cs)
  have "fills b0 (fst (naked_single c s)) (snd (naked_single c s))"
    using Cons.prems by (intro naked_single_step) simp_all
  then have "fills b0 (fst (fold naked_single cs (naked_single c s)))
      (snd (fold naked_single cs (naked_single c s)))"
    using Cons.prems(2) by (intro Cons.IH) simp_all
  then show ?case by simp
qed

lemma rule1_exact:
  assumes "nine_by_nine b" "- 1 \<le> x" "0 \<le> y"
  shows "rule1 b x y = Inr (fold naked_single (rule1_scan x y) (b, []))"
proof -
  let ?I = "\<lambda>s. nine_by_nine (fst s)"
  have step: "(case c of (j, i) \<Rightarrow> rule1_cell i j) s = Inr (naked_single c s) \<and> ?I (naked_single c s)"
    if "c \<in> set (rule1_scan x y)" "?I s" for c s
  proof -
    note bd = rule1_scan_bounds [OF assms(2,3) that(1)]
    obtain b' m where s: "s = (b', m)" by (cases s)
    have "rule1_cell (snd c) (fst c) (b', m) = Inr (naked_single (fst c, snd c) (b', m))"
      using that(2) bd unfolding s by (intro rule1_cell_exact) simp_all
    moreover have "nine_by_nine (fst (naked_single c (b', m)))"
      using naked_single_fills [of b' c m] that(2) bd fillsD(1) unfolding s by auto
    ultimately show ?thesis unfolding s by (simp add: case_prod_beta)
  qed
  have "rule1 b x y = forEach (\<lambda>c. case c of (j, i) \<Rightarrow> rule1_cell i j) (rule1_scan x y) (b, [])"
    unfolding rule1_def rule1_scan_def
    using forEach_nested [of "\<lambda>c. case c of (j, i) \<Rightarrow> rule1_cell i j"] by simp
  then show ?thesis
    using forEach_fold [of "rule1_scan x y" ?I "\<lambda>c. case c of (j, i) \<Rightarrow> rule1_cell i j" naked_single "(b, [])"]
      step assms(1) by simp
qed

lemma rule1_fills:
  assumes "nine_by_nine b" "- 1 \<le> x" "0 \<le> y"
  shows "\<exists>b' m. rule1 b x y = Inr (b', m) \<and> fills b b' m"
proof -
  have "fills b (fst (fold naked_single (rule1_scan x y) (b, [])))
      (snd (fold naked_single (rule1_scan x y) (b, [])))"
    using fills_refl [OF assms(1)] rule1_scan_bounds [OF assms(2,3)]
    by (intro fold_naked_single_fills) auto
  then show ?thesis using rule1_exact [OF assms] by (simp add: prod_eq_iff)
qed

lemma rule1_scan_set: "set (rule1_scan x y) = {(j, i). y \<le> i \<and> i \<le> 8 \<and> x < j \<and> j \<le> 8}"
  by (auto simp: rule1_scan_def)

lemma sorted_wrt_rows:
  assumes "sorted_wrt (<) is" "sorted_wrt (<) js"
  shows "sorted_wrt (\<lambda>c c'. snd c < snd c' \<or> (snd c = snd c' \<and> fst c < fst c'))
           (concat (map (\<lambda>i. map (\<lambda>j. (j, i)) js) is))"
  using assms(1)
proof (induction "is")
  case Nil
  then show ?case by simp
next
  case (Cons i "is")
  have "sorted_wrt (\<lambda>c c'. snd c < snd c' \<or> (snd c = snd c' \<and> fst c < fst c')) (map (\<lambda>j. (j, i)) js)"
    using assms(2) by (auto simp: sorted_wrt_map intro: sorted_wrt_mono_rel)
  then show ?case using Cons by (auto simp: sorted_wrt_append)
qed

lemma rule1_scan_sorted:
  "sorted_wrt (\<lambda>c c'. snd c < snd c' \<or> (snd c = snd c' \<and> fst c < fst c')) (rule1_scan x y)"
  unfolding rule1_scan_def by (rule sorted_wrt_rows) simp_all

text \<open>
  Claim C3, as the code has it. Rule 1 is one forward pass over the cells \<open>(j, i)\<close>
  with \<open>y \<le> i \<le> 8\<close> and \<open>x < j \<le> 8\<close>, the same column bound in every row, in
  row-major order; at each scanned cell it assigns exactly when the candidate set of the
  cell, on the board as it is at that moment, has exactly one member, and it goes on with
  the same pass after an assignment.
\<close>

theorem rule1_forward_pass:
  assumes "nine_by_nine b" "0 \<le> x" "x \<le> 8" "0 \<le> y" "y \<le> 8"
  shows "rule1 b x y = Inr (fold naked_single (rule1_scan x y) (b, []))
     \<and> set (rule1_scan x y) = {(j, i). y \<le> i \<and> i \<le> 8 \<and> x < j \<and> j \<le> 8}
     \<and> sorted_wrt (\<lambda>c c'. snd c < snd c' \<or> (snd c = snd c' \<and> fst c < fst c')) (rule1_scan x y)"
  using rule1_exact [OF assms(1), of x y] assms(2,4) rule1_scan_set rule1_scan_sorted by simp

theorem rule1_forward_pass_witness:
  "nine_by_nine scenario_B
   \<and> rule1 scenario_B 1 0 = Inr (fold naked_single (rule1_scan 1 0) (scenario_B, []))
   \<and> set (rule1_scan 1 0) = {(j, i). 0 \<le> i \<and> i \<le> 8 \<and> 1 < j \<and> j \<le> 8}
   \<and> sorted_wrt (\<lambda>c c'. snd c < snd c' \<or> (snd c = snd c' \<and> fst c < fst c')) (rule1_scan 1 0)"
proof -
  have "(0 :: int) \<le> 1" "(1 :: int) \<le> 8" "(0 :: int) \<le> 0" "(0 :: int) \<le> 8" by simp_all
  then show ?thesis
    using rule1_forward_pass [OF scenario_B_shape(1), of 1 0] scenario_B_shape(1) by blast
qed

text \<open>
  Claim C3 as stated fails: with the pivot at \<open>(0, 0)\<close>, the cell in column 0 of row 1
  belongs to the scan that the claim describes and has the single candidate 9, yet Rule 1
  leaves the board as it is and logs nothing.
\<close>

theorem rule1_skips_columns_below:
  "(0, 1) \<in> set (claimed_scan 0 0)
   \<and> candidates skipped_example 0 1 = Inr [9]
   \<and> rule1 skipped_example 0 0 = Inr (skipped_example, [])"
  by code_simp

section \<open>Rules 2, 3 and 4\<close>

lemma difference_filter: "difference a bs = filter (\<lambda>x. \<forall>b\<in>set bs. x \<notin> set b) a"
proof -
  have "foldl (\<lambda>a b. filter (\<lambda>x. x \<notin> set b) a) a bs = filter (\<lambda>x. \<forall>b\<in>set bs. x \<notin> set b) a"
  proof (induction bs arbitrary: a)
    case Nil
    then show ?case by simp
  next
    case (Cons b bs)
    show ?case unfolding foldl_Cons Cons.IH by (auto intro: filter_cong)
  qed
  then show ?thesis by (simp add: difference_def)
qed

lemma diffs_length: "length (diffs allowed) = length allowed"
  by (simp add: diffs_def)

lemma diffs_nth:
  assumes "k < length allowed"
  shows "diffs allowed ! k
     = filter (\<lambda>v. \<forall>k'<length allowed. k' \<noteq> k \<longrightarrow> v \<notin> set (allowed ! k')) (allowed ! k)"
  using assms unfolding diffs_def difference_filter by (auto intro: filter_cong)

lemma mapE_pure:
  assumes "\<And>x. x \<in> set xs \<Longrightarrow> f x = Inr (h x)"
  shows "mapE f xs = Inr (map h xs)"
  using assms by (induction xs) auto

lemma mapE_map: "mapE f (map g xs) = mapE (\<lambda>x. f (g x)) xs"
  by (induction xs) (auto split: sum.splits)

lemma zip_upt_nth: "zip [0..<length xs] xs = map (\<lambda>k. (k, xs ! k)) [0..<length xs]"
  by (rule nth_equalityI) auto

lemma fold_pass_split:
  "fold (\<lambda>k s. case s of (b, m) \<Rightarrow> if P k then (w k b, m @ [at k]) else (b, m)) ks (b, m)
   = (fold (\<lambda>k b. if P k then w k b else b) ks b, m @ map at (filter P ks))"
  by (induction ks arbitrary: b m) auto

lemma assign_diffs_exact:
  assumes "\<And>k. k < length ds \<Longrightarrow> length (ds ! k) = 1 \<Longrightarrow>
      0 \<le> fst (at k) \<and> fst (at k) \<le> 8 \<and> 0 \<le> snd (at k) \<and> snd (at k) \<le> 8
      \<and> 0 \<le> ds ! k ! 0 \<and> ds ! k ! 0 \<le> 9"
  shows "assign_diffs at ds (b, m)
     = Inr (fold (\<lambda>k b. if length (ds ! k) = 1
                          then put b (nat (fst (at k))) (nat (snd (at k))) (ds ! k ! 0) else b)
                 [0..<length ds] b,
            m @ map at (filter (\<lambda>k. length (ds ! k) = 1) [0..<length ds]))"
proof -
  let ?g = "\<lambda>k s. case s of (b, m) \<Rightarrow>
      if length (ds ! k) = 1
      then (put b (nat (fst (at k))) (nat (snd (at k))) (ds ! k ! 0), m @ [at k]) else (b, m)"
  have step: "assign_diff at (k, ds ! k) s = Inr (?g k s) \<and> True"
    if "k \<in> set [0..<length ds]" for k s
  proof -
    obtain b' m' where s: "s = (b', m')" by (cases s)
    show ?thesis
    proof (cases "length (ds ! k) = 1")
      case True
      then have "set_cell b' (fst (at k)) (snd (at k)) (ds ! k ! 0)
          = Inr (put b' (nat (fst (at k))) (nat (snd (at k))) (ds ! k ! 0))"
        using assms [of k] that by (intro set_cell_put) simp_all
      then show ?thesis using True by (simp add: assign_diff_def s)
    next
      case False
      then show ?thesis by (simp add: assign_diff_def s)
    qed
  qed
  have "assign_diffs at ds (b, m) = forEach (\<lambda>k. assign_diff at (k, ds ! k)) [0..<length ds] (b, m)"
    by (simp add: assign_diffs_def zip_upt_nth forEach_map)
  also have "\<dots> = Inr (fold ?g [0..<length ds] (b, m))"
    using forEach_fold [of "[0..<length ds]" "\<lambda>_. True" "\<lambda>k. assign_diff at (k, ds ! k)" ?g "(b, m)"] step
    by blast
  finally show ?thesis unfolding fold_pass_split .
qed

lemma group_pass_exact:
  assumes "nine_by_nine b" "g \<in> set groups"
  shows "group_pass g (b, m) = Inr (hidden_singles g (b, m))"
proof -
  define cl where "cl c = projr (candidates b (int (fst c)) (int (snd c)))" for c :: "nat \<times> nat"
  define ds where "ds = diffs (map cl g)"
  let ?at = "\<lambda>k. (int (fst (g ! k)), int (snd (g ! k)))"
  note gf = group_facts [OF assms(2)]
  have cl: "candidates b (int (fst c)) (int (snd c)) = Inr (cl c)
      \<and> set (cl c) = cand b (fst c) (snd c) \<and> distinct (cl c)" if "c \<in> set g" for c
  proof -
    have "fst c < 9 \<and> snd c < 9" using gf(3) [OF that] .
    then obtain cs where "candidates b (int (fst c)) (int (snd c)) = Inr cs"
        "set cs = cand b (nat (int (fst c))) (nat (int (snd c)))" "distinct cs"
      using candidates_cand [OF assms(1), of "int (fst c)" "int (snd c)"] by auto
    then show ?thesis by (simp add: cl_def)
  qed
  have allowed: "mapE (\<lambda>c. candidates b (int (fst c)) (int (snd c))) g = Inr (map cl g)"
    using cl by (intro mapE_pure) simp
  have len: "length ds = length g" by (simp add: ds_def diffs_length)
  have dk: "set (ds ! k) = hidden b g k \<and> distinct (ds ! k)" if "k < length g" for k
  proof -
    have e: "ds ! k = filter (\<lambda>v. \<forall>k'<length g. k' \<noteq> k \<longrightarrow> v \<notin> set (cl (g ! k'))) (cl (g ! k))"
      using that unfolding ds_def by (simp add: diffs_nth cong: filter_cong)
    have "set (ds ! k) = hidden b g k"
      unfolding e hidden_def using cl that by (auto simp: nth_mem)
    moreover have "distinct (ds ! k)" unfolding e using cl that by (simp add: nth_mem)
    ultimately show ?thesis by simp
  qed
  have card: "length (ds ! k) = card (hidden b g k)" if "k < length g" for k
    using dk [OF that] by (metis distinct_card)
  have single: "the_elem (hidden b g k) = ds ! k ! 0 \<and> 1 \<le> ds ! k ! 0 \<and> ds ! k ! 0 \<le> 9"
    if k: "k < length g" "length (ds ! k) = 1" for k
  proof -
    obtain v where v: "ds ! k = [v]" using k(2) by (cases "ds ! k") auto
    then have h: "hidden b g k = {v}" using dk [OF k(1)] by simp
    then have "v \<in> cand b (fst (g ! k)) (snd (g ! k))" by (auto simp: hidden_def)
    then have "1 \<le> v \<and> v \<le> 9" by (auto simp: cand_def split: if_splits)
    then show ?thesis using v h by simp
  qed
  have bounds: "0 \<le> fst (?at k) \<and> fst (?at k) \<le> 8 \<and> 0 \<le> snd (?at k) \<and> snd (?at k) \<le> 8
      \<and> 0 \<le> ds ! k ! 0 \<and> ds ! k ! 0 \<le> 9" if "k < length ds" "length (ds ! k) = 1" for k
    using that single [of k] gf(3) [of "g ! k"] len by (simp add: nth_mem)
  have "group_pass g (b, m) = assign_diffs ?at ds (b, m)"
    by (simp add: group_pass_def allowed ds_def)
  also have "\<dots> = Inr (fold (\<lambda>k b. if length (ds ! k) = 1
                          then put b (nat (fst (?at k))) (nat (snd (?at k))) (ds ! k ! 0) else b)
                 [0..<length ds] b,
            m @ map ?at (filter (\<lambda>k. length (ds ! k) = 1) [0..<length ds]))"
    using bounds by (rule assign_diffs_exact)
  also have "\<dots> = Inr (hidden_singles g (b, m))"
  proof -
    have "fold (\<lambda>k b. if length (ds ! k) = 1
                          then put b (nat (fst (?at k))) (nat (snd (?at k))) (ds ! k ! 0) else b)
                 [0..<length ds] b
        = fold (\<lambda>k b'. if card (hidden b g k) = 1
                       then put b' (fst (g ! k)) (snd (g ! k)) (the_elem (hidden b g k)) else b')
              [0..<length g] b"
      unfolding len by (rule fold_cong) (auto simp: card single)
    moreover have "filter (\<lambda>k. length (ds ! k) = 1) [0..<length ds]
        = filter (\<lambda>k. card (hidden b g k) = 1) [0..<length g]"
      unfolding len by (rule filter_cong) (auto simp: card)
    ultimately show ?thesis by (simp add: hidden_singles_def)
  qed
  finally show ?thesis .
qed

lemma fold_put_cells:
  fixes P :: "nat \<Rightarrow> bool" and val :: "nat \<Rightarrow> int" and g :: "(nat \<times> nat) list"
  assumes "nine_by_nine b0" "distinct (map (\<lambda>k. g ! k) ks)"
    and "\<forall>k\<in>set ks. fst (g ! k) < 9 \<and> snd (g ! k) < 9"
  defines "step \<equiv> \<lambda>k b'. if P k then put b' (fst (g ! k)) (snd (g ! k)) (val k) else b'"
  shows "nine_by_nine (fold step ks b0)
     \<and> (\<forall>k\<in>set ks. P k \<longrightarrow> fold step ks b0 ! snd (g ! k) ! fst (g ! k) = val k)
     \<and> (\<forall>x<9. \<forall>y<9. (\<forall>k\<in>set ks. P k \<longrightarrow> g ! k \<noteq> (x, y))
            \<longrightarrow> fold step ks b0 ! y ! x = b0 ! y ! x)"
  using assms(1-3)
proof (induction ks arbitrary: b0)
  case Nil
  then show ?case by simp
next
  case (Cons k ks)
  have kb: "fst (g ! k) < 9" "snd (g ! k) < 9" using Cons.prems(3) by simp_all
  have n1: "nine_by_nine (step k b0)"
    using Cons.prems(1) by (simp add: step_def nine_by_nine_put)
  have IH: "nine_by_nine (fold step ks (step k b0))"
      "\<And>k'. k' \<in> set ks \<Longrightarrow> P k' \<Longrightarrow>
          fold step ks (step k b0) ! snd (g ! k') ! fst (g ! k') = val k'"
      "\<And>x y. x < 9 \<Longrightarrow> y < 9 \<Longrightarrow> (\<forall>k'\<in>set ks. P k' \<longrightarrow> g ! k' \<noteq> (x, y))
          \<Longrightarrow> fold step ks (step k b0) ! y ! x = step k b0 ! y ! x"
    using Cons.IH [OF n1] Cons.prems(2,3) by simp_all
  have fresh: "\<forall>k'\<in>set ks. g ! k' \<noteq> g ! k" using Cons.prems(2) by (auto simp: image_iff)
  have a: "fold step (k # ks) b0 ! snd (g ! k') ! fst (g ! k') = val k'"
    if "k' \<in> set (k # ks)" "P k'" for k'
  proof (cases "k' \<in> set ks")
    case True
    then show ?thesis using IH(2) that(2) by simp
  next
    case False
    then have e: "k' = k" using that(1) by simp
    have "fold step ks (step k b0) ! snd (g ! k) ! fst (g ! k) = step k b0 ! snd (g ! k) ! fst (g ! k)"
      using fresh kb by (intro IH(3)) (auto simp: prod_eq_iff)
    also have "\<dots> = val k"
      using that(2) kb Cons.prems(1) unfolding e by (simp add: step_def put_nth)
    finally show ?thesis unfolding e by simp
  qed
  have b: "fold step (k # ks) b0 ! y ! x = b0 ! y ! x"
    if "x < 9" "y < 9" "\<forall>k'\<in>set (k # ks). P k' \<longrightarrow> g ! k' \<noteq> (x, y)" for x y
  proof -
    have "fold step ks (step k b0) ! y ! x = step k b0 ! y ! x"
      using that by (intro IH(3)) simp_all
    also have "\<dots> = b0 ! y ! x"
      using that kb Cons.prems(1) by (auto simp: step_def put_nth)
    finally show ?thesis by simp
  qed
  show ?case using IH(1) a b by simp
qed

lemma hidden_singles_fills:
  assumes "nine_by_nine b" "g \<in> set groups"
  shows "\<exists>m1. hidden_singles g (b, m) = (fst (hidden_singles g (b, m)), m @ m1)
            \<and> fills b (fst (hidden_singles g (b, m))) m1"
proof -
  note gf = group_facts [OF assms(2)]
  let ?P = "\<lambda>k. card (hidden b g k) = 1"
  let ?val = "\<lambda>k. the_elem (hidden b g k)"
  let ?at = "\<lambda>k. (int (fst (g ! k)), int (snd (g ! k)))"
  let ?b' = "fold (\<lambda>k b'. if ?P k then put b' (fst (g ! k)) (snd (g ! k)) (?val k) else b')
      [0..<length g] b"
  let ?m1 = "map ?at (filter ?P [0..<length g])"
  have d: "distinct (map (\<lambda>k. g ! k) [0..<length g])" using gf(1) by (simp add: map_nth)
  have bd: "\<forall>k\<in>set [0..<length g]. fst (g ! k) < 9 \<and> snd (g ! k) < 9"
    using gf(3) by (simp add: nth_mem)
  note fp = fold_put_cells [OF assms(1) d bd, of ?P ?val]
  have fp2: "?b' ! snd (g ! k) ! fst (g ! k) = ?val k" if "k < length g" "?P k" for k
    using fp that by simp
  have hs: "hidden_singles g (b, m) = (?b', m @ ?m1)" by (simp add: hidden_singles_def)
  have mem: "(int x, int y) \<in> set ?m1 \<longleftrightarrow> (\<exists>k<length g. ?P k \<and> g ! k = (x, y))" for x y
    by (auto simp: prod_eq_iff)
  have "fills b ?b' ?m1"
  proof (rule fillsI)
    show "nine_by_nine ?b'" using fp by simp
  next
    fix c assume "c \<in> set ?m1"
    then obtain k where "k < length g" "c = ?at k" by auto
    then show "\<not> out_of_bounds (fst c) (snd c)"
      using gf(3) [of "g ! k"] by (simp add: out_of_bounds_def)
  next
    fix x y :: nat assume xy: "x < 9" "y < 9" and "(int x, int y) \<in> set ?m1"
    then obtain k where k: "k < length g" "?P k" "g ! k = (x, y)" unfolding mem by blast
    obtain v where v: "hidden b g k = {v}" using k(2) by (auto simp: card_1_singleton_iff)
    have val: "?b' ! y ! x = v" using fp2 [OF k(1,2)] k(3) v by simp
    have vc: "v \<in> cand b x y" using v k(3) by (auto simp: hidden_def)
    have others: "\<forall>c\<in>set g. c \<noteq> (x, y) \<longrightarrow> v \<notin> cand b (fst c) (snd c)"
    proof (intro ballI impI)
      fix c assume c: "c \<in> set g" "c \<noteq> (x, y)"
      then obtain k' where k': "k' < length g" "g ! k' = c" by (auto simp: in_set_conv_nth)
      then have "k' \<in> {0..<length g} - {k}" using c(2) k(3) by auto
      moreover have "v \<in> hidden b g k" using v by simp
      ultimately have "v \<notin> cand b (fst (g ! k')) (snd (g ! k'))"
        unfolding hidden_def by blast
      then show "v \<notin> cand b (fst c) (snd c)" using k'(2) by simp
    qed
    have "(x, y) \<in> set g" using k(1,3) by (metis nth_mem)
    then have "forced b x y v"
      unfolding forced_def using hidden_single_sound [OF _ assms(2) _ vc others] by blast
    moreover have "b ! y ! x = 0 \<and> 1 \<le> v \<and> v \<le> 9"
      using vc by (auto simp: cand_def split: if_splits)
    ultimately show "b ! y ! x = 0 \<and> 1 \<le> ?b' ! y ! x \<and> ?b' ! y ! x \<le> 9 \<and> forced b x y (?b' ! y ! x)"
      unfolding val by simp
  next
    fix x y :: nat assume xy: "x < 9" "y < 9" and "(int x, int y) \<notin> set ?m1"
    then have "\<forall>k\<in>set [0..<length g]. ?P k \<longrightarrow> g ! k \<noteq> (x, y)" unfolding mem by auto
    then show "?b' ! y ! x = b ! y ! x" using fp xy by blast
  qed
  then show ?thesis unfolding hs by auto
qed

lemma hidden_singles_step:
  assumes "fills b0 (fst s) (snd s)" "g \<in> set groups"
  shows "fills b0 (fst (hidden_singles g s)) (snd (hidden_singles g s))"
proof -
  obtain b m where s: "s = (b, m)" by (cases s)
  have n: "nine_by_nine b" using assms(1) fillsD(1) unfolding s by auto
  obtain m1 where m1: "hidden_singles g (b, m) = (fst (hidden_singles g (b, m)), m @ m1)"
      "fills b (fst (hidden_singles g (b, m))) m1"
    using hidden_singles_fills [OF n assms(2), of m] by blast
  have "fills b0 (fst (hidden_singles g (b, m))) (m @ m1)"
    using assms(1) m1(2) unfolding s by (intro fills_trans [of b0 b m]) simp_all
  then show ?thesis unfolding s by (metis m1(1) snd_conv)
qed

lemma fold_hidden_singles_fills:
  assumes "fills b0 (fst s) (snd s)" "\<forall>g\<in>set gs. g \<in> set groups"
  shows "fills b0 (fst (fold hidden_singles gs s)) (snd (fold hidden_singles gs s))"
  using assms
proof (induction gs arbitrary: s)
  case Nil
  then show ?case by simp
next
  case (Cons g gs)
  have "fills b0 (fst (hidden_singles g s)) (snd (hidden_singles g s))"
    using Cons.prems by (intro hidden_singles_step) simp_all
  then have "fills b0 (fst (fold hidden_singles gs (hidden_singles g s)))
      (snd (fold hidden_singles gs (hidden_singles g s)))"
    using Cons.prems(2) by (intro Cons.IH) simp_all
  then show ?case by simp
qed

lemma forEach_cong:
  assumes "\<And>x s. x \<in> set xs \<Longrightarrow> f x s = g x s"
  shows "forEach f xs s = forEach g xs s"
  using assms by (induction xs arbitrary: s) (auto split: sum.splits)

lemma assign_diffs_cong:
  assumes "\<And>k. k < length ds \<Longrightarrow> at k = at' k"
  shows "assign_diffs at ds s = assign_diffs at' ds s"
  unfolding assign_diffs_def
proof (rule forEach_cong)
  fix kd :: "nat \<times> int list" and s :: pass
  assume mem: "kd \<in> set (zip [0..<length ds] ds)"
  obtain k d where kd: "kd = (k, d)" by (cases kd)
  have "k \<in> set [0..<length ds]" using mem unfolding kd by (rule set_zip_leftD)
  then have e: "at k = at' k" using assms by simp
  show "assign_diff at kd s = assign_diff at' kd s"
    unfolding assign_diff_def kd prod.case e ..
qed

lemma mapE_length: "mapE f xs = Inr ys \<Longrightarrow> length ys = length xs"
  by (induction xs arbitrary: ys) (auto split: sum.splits)

lemma group_pass_cong:
  assumes "mapE f xs = mapE (\<lambda>c. candidates b (int (fst c)) (int (snd c))) g"
    and "length xs = length g"
    and "\<And>k. k < length g \<Longrightarrow> at k = (int (fst (g ! k)), int (snd (g ! k)))"
  shows "(case mapE f xs of Inl e \<Rightarrow> Inl e
          | Inr allowed \<Rightarrow> assign_diffs at (diffs allowed) (b, m))
     = group_pass g (b, m)"
proof (cases "mapE f xs")
  case (Inl e)
  then show ?thesis using assms(1) by (simp add: group_pass_def)
next
  case (Inr allowed)
  then have "length (diffs allowed) = length g"
    using assms(2) by (simp add: diffs_length mapE_length)
  then have "assign_diffs at (diffs allowed) (b, m)
      = assign_diffs (\<lambda>k. (int (fst (g ! k)), int (snd (g ! k)))) (diffs allowed) (b, m)"
    using assms(3) by (intro assign_diffs_cong) simp
  then show ?thesis using Inr assms(1) by (simp add: group_pass_def)
qed

lemma rule2_row_group:
  assumes "nine_by_nine b" "0 \<le> i" "i \<le> 8"
  shows "rule2_row i (b, m) = group_pass (row_cells (nat i)) (b, m)"
proof -
  have l: "length (rows b ! nat i) = 9" using assms by (simp add: nine_by_nineD)
  have "mapE (\<lambda>j. candidates b (int j) i) [0..<9]
      = mapE (\<lambda>c. candidates b (int (fst c)) (int (snd c))) (row_cells (nat i))"
    using assms(2) by (simp add: row_cells_def mapE_map)
  then have "(case mapE (\<lambda>j. candidates b (int j) i) [0..<9] of Inl e \<Rightarrow> Inl e
          | Inr allowed \<Rightarrow> assign_diffs (\<lambda>j. (int j, i)) (diffs allowed) (b, m))
     = group_pass (row_cells (nat i)) (b, m)"
    using assms(2) by (intro group_pass_cong) (simp_all add: row_cells_def)
  then show ?thesis using assms(2) l by (simp add: rule2_row_def)
qed

lemma rule3_column_group:
  assumes "nine_by_nine b" "0 \<le> j" "j \<le> 8"
  shows "rule3_column j (b, m) = group_pass (column_cells (nat j)) (b, m)"
proof -
  have l: "length (columns b ! nat j) = 9"
    using assms by (simp add: columns_nth cell_values_def column_cells_def)
  have "mapE (\<lambda>i. candidates b j (int i)) [0..<9]
      = mapE (\<lambda>c. candidates b (int (fst c)) (int (snd c))) (column_cells (nat j))"
    using assms(2) by (simp add: column_cells_def mapE_map)
  then have "(case mapE (\<lambda>i. candidates b j (int i)) [0..<9] of Inl e \<Rightarrow> Inl e
          | Inr allowed \<Rightarrow> assign_diffs (\<lambda>i. (j, int i)) (diffs allowed) (b, m))
     = group_pass (column_cells (nat j)) (b, m)"
    using assms(2) by (intro group_pass_cong) (simp_all add: column_cells_def)
  then show ?thesis using assms(2) l by (simp add: rule3_column_def)
qed

lemma box_indices_all:
  "list_all (\<lambda>k. map (\<lambda>i. (rem i 9, quot i 9)) (box_indices k)
      = map (\<lambda>c. (int (fst c), int (snd c))) (box_cells (nat k))) [0..8]"
  by code_simp

lemma box_indices_cells:
  assumes "0 \<le> k" "k \<le> 8"
  shows "map (\<lambda>i. (rem i 9, quot i 9)) (box_indices k)
      = map (\<lambda>c. (int (fst c), int (snd c))) (box_cells (nat k))"
  using box_indices_all assms by (simp add: list_all_iff)

lemma rule4_box_group:
  assumes "nine_by_nine b" "0 \<le> k" "k \<le> 8"
  shows "rule4_box k (b, m) = group_pass (box_cells (nat k)) (b, m)"
proof -
  note bi = box_indices_cells [OF assms(2,3)]
  have lb: "length (box_cells (nat k)) = 9"
    using assms by (intro group_facts(2) groups_mem(3)) simp
  have li: "length (box_indices k) = 9" by (simp add: box_indices_def)
  have "mapE (\<lambda>i. candidates b (rem i 9) (quot i 9)) (box_indices k)
      = mapE (\<lambda>p. candidates b (fst p) (snd p)) (map (\<lambda>i. (rem i 9, quot i 9)) (box_indices k))"
    by (simp add: mapE_map)
  also have "\<dots> = mapE (\<lambda>c. candidates b (int (fst c)) (int (snd c))) (box_cells (nat k))"
    unfolding bi by (simp add: mapE_map)
  finally have 1: "mapE (\<lambda>i. candidates b (rem i 9) (quot i 9)) (box_indices k)
      = mapE (\<lambda>c. candidates b (int (fst c)) (int (snd c))) (box_cells (nat k))" .
  have 2: "(rem (box_indices k ! i) 9, quot (box_indices k ! i) 9)
      = (int (fst (box_cells (nat k) ! i)), int (snd (box_cells (nat k) ! i)))" if "i < 9" for i
  proof -
    have "map (\<lambda>i. (rem i 9, quot i 9)) (box_indices k) ! i
        = map (\<lambda>c. (int (fst c), int (snd c))) (box_cells (nat k)) ! i"
      unfolding bi ..
    then show ?thesis using that li lb by simp
  qed
  have "(case mapE (\<lambda>i. candidates b (rem i 9) (quot i 9)) (box_indices k) of Inl e \<Rightarrow> Inl e
          | Inr allowed \<Rightarrow>
              assign_diffs (\<lambda>i. (rem (box_indices k ! i) 9, quot (box_indices k ! i) 9))
                (diffs allowed) (b, m))
     = group_pass (box_cells (nat k)) (b, m)"
    using 1 2 li lb by (intro group_pass_cong) simp_all
  then show ?thesis by (simp add: rule4_box_def Let_def)
qed

lemma forEach_rule_groups:
  assumes "nine_by_nine b"
    and "\<And>i b' m. i \<in> set is \<Longrightarrow> nine_by_nine b' \<Longrightarrow> f i (b', m) = group_pass (G i) (b', m)"
    and "\<forall>i\<in>set is. G i \<in> set groups"
  shows "forEach f is (b, []) = Inr (fold hidden_singles (map G is) (b, []))
     \<and> fills b (fst (fold hidden_singles (map G is) (b, [])))
              (snd (fold hidden_singles (map G is) (b, [])))"
proof -
  let ?I = "\<lambda>s. nine_by_nine (fst s)"
  have step: "f i s = Inr (hidden_singles (G i) s) \<and> ?I (hidden_singles (G i) s)"
    if "i \<in> set is" "?I s" for i s
  proof -
    obtain b' m where s: "s = (b', m)" by (cases s)
    have g: "G i \<in> set groups" using assms(3) that(1) by simp
    have "nine_by_nine (fst (hidden_singles (G i) (b', m)))"
      using hidden_singles_fills [of b' "G i" m] that(2) g fillsD(1) unfolding s by auto
    then show ?thesis
      using group_pass_exact [of b' "G i" m] assms(2) [of i b' m] that g unfolding s by simp
  qed
  have "forEach f is (b, []) = Inr (fold (\<lambda>i. hidden_singles (G i)) is (b, []))"
    using forEach_fold [of "is" ?I f "\<lambda>i. hidden_singles (G i)" "(b, [])"] step assms(1) by simp
  moreover have "fold (\<lambda>i. hidden_singles (G i)) is (b, []) = fold hidden_singles (map G is) (b, [])"
    by (simp add: fold_map comp_def)
  moreover have "fills b (fst (fold hidden_singles (map G is) (b, [])))
              (snd (fold hidden_singles (map G is) (b, [])))"
    using fills_refl [OF assms(1)] assms(3) by (intro fold_hidden_singles_fills) simp_all
  ultimately show ?thesis by simp
qed

lemma rule2_exact:
  assumes "nine_by_nine b" "0 \<le> y"
  shows "rule2 b x y = Inr (fold hidden_singles (map (\<lambda>i. row_cells (nat i)) [y..8]) (b, []))
     \<and> fills b (fst (fold hidden_singles (map (\<lambda>i. row_cells (nat i)) [y..8]) (b, [])))
              (snd (fold hidden_singles (map (\<lambda>i. row_cells (nat i)) [y..8]) (b, [])))"
  unfolding rule2_def using assms
  by (intro forEach_rule_groups) (auto simp: rule2_row_group groups_mem)

lemma rule3_exact:
  assumes "nine_by_nine b" "0 \<le> x"
  shows "rule3 b x y = Inr (fold hidden_singles (map (\<lambda>j. column_cells (nat j)) [x..8]) (b, []))
     \<and> fills b (fst (fold hidden_singles (map (\<lambda>j. column_cells (nat j)) [x..8]) (b, [])))
              (snd (fold hidden_singles (map (\<lambda>j. column_cells (nat j)) [x..8]) (b, [])))"
  unfolding rule3_def using assms
  by (intro forEach_rule_groups) (auto simp: rule3_column_group groups_mem)

lemma box_start: "0 \<le> x \<Longrightarrow> 0 \<le> y \<Longrightarrow> 0 \<le> quot y 3 * 3 + quot x 3"
  by (simp add: quot_nonneg)

lemma rule4_exact:
  assumes "nine_by_nine b" "0 \<le> x" "0 \<le> y"
  shows "rule4 b x y
     = Inr (fold hidden_singles (map (\<lambda>k. box_cells (nat k)) [quot y 3 * 3 + quot x 3..8]) (b, []))
     \<and> fills b
         (fst (fold hidden_singles (map (\<lambda>k. box_cells (nat k)) [quot y 3 * 3 + quot x 3..8]) (b, [])))
         (snd (fold hidden_singles (map (\<lambda>k. box_cells (nat k)) [quot y 3 * 3 + quot x 3..8]) (b, [])))"
  unfolding rule4_def using assms(1) box_start [OF assms(2,3)]
  by (intro forEach_rule_groups) (auto simp: rule4_box_group groups_mem)

lemma propagate_fills:
  assumes "nine_by_nine b" "0 \<le> x" "x \<le> 8" "0 \<le> y" "y \<le> 8"
  shows "\<exists>b' m. propagate b x y = Inr (b', (x, y) # m) \<and> fills b b' m"
proof -
  obtain b1 m1 where 1: "rule1 b x y = Inr (b1, m1)" "fills b b1 m1"
    using rule1_fills [OF assms(1), of x y] assms(2,4) by auto
  obtain b2 m2 where 2: "rule2 b1 x y = Inr (b2, m2)" "fills b1 b2 m2"
    using rule2_exact [OF fillsD(1) [OF 1(2)] assms(4), of x] by (metis prod.collapse)
  obtain b3 m3 where 3: "rule3 b2 x y = Inr (b3, m3)" "fills b2 b3 m3"
    using rule3_exact [OF fillsD(1) [OF 2(2)] assms(2), of y] by (metis prod.collapse)
  obtain b4 m4 where 4: "rule4 b3 x y = Inr (b4, m4)" "fills b3 b4 m4"
    using rule4_exact [OF fillsD(1) [OF 3(2)] assms(2,4)] by (metis prod.collapse)
  have "fills b b4 (m1 @ m2 @ m3 @ m4)"
    using fills_trans [OF 1(2) fills_trans [OF 2(2) fills_trans [OF 3(2) 4(2)]]] .
  then show ?thesis using 1 2 3 4 by (simp add: propagate_def)
qed

subsection \<open>Rule 2, row by row\<close>

lemma row_cells_nth: "k < 9 \<Longrightarrow> row_cells i ! k = (k, i)"
  by (simp add: row_cells_def)

lemma row_cells_length: "length (row_cells i) = 9"
  by (simp add: row_cells_def)

lemma hidden_row:
  assumes "k < 9"
  shows "hidden b (row_cells i) k = row_difference b i k"
proof -
  have "(\<Union>k'\<in>{0..<9} - {k}. cand b (fst (row_cells i ! k')) (snd (row_cells i ! k')))
      = (\<Union>k'\<in>{0..<9} - {k}. cand b k' i)"
    by (rule SUP_cong) (simp_all add: row_cells_nth)
  then show ?thesis
    using assms by (simp add: hidden_def row_difference_def row_cells_length row_cells_nth)
qed

lemma hidden_singles_row:
  assumes "nine_by_nine b" "i < 9"
  shows "hidden_singles (row_cells i) (b, m) = row_hidden_singles i (b, m)"
proof -
  let ?g = "row_cells i"
  let ?P = "\<lambda>k. card (row_difference b i k) = 1"
  let ?val = "\<lambda>k. the_elem (row_difference b i k)"
  let ?step = "\<lambda>k b'. if ?P k then put b' (fst (?g ! k)) (snd (?g ! k)) (?val k) else b'"
  let ?b' = "fold ?step [0..<9] b"
  let ?row = "map (\<lambda>j. if ?P j then ?val j else b ! i ! j) [0..<9]"
  have g: "?g \<in> set groups" using assms(2) by (simp add: groups_mem)
  note gf = group_facts [OF g]
  have d: "distinct (map (\<lambda>k. ?g ! k) [0..<9])"
    using gf(1) map_nth [of ?g] by (simp add: row_cells_length)
  have bd: "\<forall>k\<in>set [0..<9]. fst (?g ! k) < 9 \<and> snd (?g ! k) < 9"
    using assms(2) by (simp add: row_cells_nth)
  note fp = fold_put_cells [OF assms(1) d bd, of ?P ?val]
  have n': "nine_by_nine ?b'" using fp by simp
  have at: "?b' ! i ! k = ?val k" if "k < 9" "?P k" for k
  proof -
    have "?b' ! snd (?g ! k) ! fst (?g ! k) = ?val k" using fp that by simp
    then show ?thesis using that(1) by (simp add: row_cells_nth)
  qed
  have other: "?b' ! y ! x = b ! y ! x" if "x < 9" "y < 9" "\<not> (y = i \<and> ?P x)" for x y
  proof -
    have "\<forall>k\<in>set [0..<9]. ?P k \<longrightarrow> ?g ! k \<noteq> (x, y)"
      using that(3) by (auto simp: row_cells_nth)
    then show ?thesis using fp that(1,2) by blast
  qed
  have nr: "nine_by_nine (b[i := ?row])"
  proof -
    have "length (b[i := ?row] ! n) = 9" if "n < 9" for n
      using assms that by (cases "n = i") (simp_all add: nine_by_nineD)
    then show ?thesis using assms(1) by (simp add: nine_by_nine_def list_all_length)
  qed
  have grid: "?b' = b[i := ?row]"
  proof (rule grid_eqI [OF n' nr])
    fix x y :: nat assume xy: "x < 9" "y < 9"
    show "?b' ! y ! x = b[i := ?row] ! y ! x"
    proof (cases "y = i")
      case False
      then show ?thesis using other [OF xy] assms(1) xy by (simp add: nine_by_nineD)
    next
      case True
      have "b[i := ?row] ! y ! x = (if ?P x then ?val x else b ! i ! x)"
        using True assms xy by (simp add: nine_by_nineD)
      moreover have "?b' ! y ! x = (if ?P x then ?val x else b ! i ! x)"
        using at [OF xy(1)] other [OF xy] True by auto
      ultimately show ?thesis by simp
    qed
  qed
  have hid: "hidden b ?g k = row_difference b i k" if "k \<in> set [0..<9]" for k
    using that by (simp add: hidden_row)
  have "fold (\<lambda>k b'. if card (hidden b ?g k) = 1
                       then put b' (fst (?g ! k)) (snd (?g ! k)) (the_elem (hidden b ?g k)) else b')
              [0..<9] b = ?b'"
  proof (rule fold_cong)
    fix k assume "k \<in> set [0..<9]"
    then have h: "hidden b ?g k = row_difference b i k" by (rule hid)
    show "(\<lambda>b'. if card (hidden b ?g k) = 1
                       then put b' (fst (?g ! k)) (snd (?g ! k)) (the_elem (hidden b ?g k)) else b')
        = ?step k"
      unfolding h ..
  qed simp_all
  moreover have "map (\<lambda>k. (int (fst (?g ! k)), int (snd (?g ! k))))
                        (filter (\<lambda>k. card (hidden b ?g k) = 1) [0..<9])
      = map (\<lambda>j. (int j, int i)) (filter ?P [0..<9])"
  proof -
    have "filter (\<lambda>k. card (hidden b ?g k) = 1) [0..<9] = filter ?P [0..<9]"
      by (rule filter_cong) (simp_all add: hid)
    moreover have "map (\<lambda>k. (int (fst (?g ! k)), int (snd (?g ! k)))) (filter ?P [0..<9])
        = map (\<lambda>j. (int j, int i)) (filter ?P [0..<9])"
      by (rule map_cong) (simp_all add: row_cells_nth)
    ultimately show ?thesis by simp
  qed
  ultimately show ?thesis
    unfolding hidden_singles_def row_hidden_singles_def prod.case row_cells_length grid [symmetric]
    by simp
qed

lemma fold_rows:
  assumes "nine_by_nine (fst s)" "\<forall>i\<in>set is. i < 9"
  shows "fold hidden_singles (map row_cells is) s = fold row_hidden_singles is s"
  using assms
proof (induction "is" arbitrary: s)
  case Nil
  then show ?case by simp
next
  case (Cons i "is")
  obtain b m where s: "s = (b, m)" by (cases s)
  have e: "hidden_singles (row_cells i) s = row_hidden_singles i s"
    using Cons.prems unfolding s by (intro hidden_singles_row) simp_all
  have "nine_by_nine (fst (hidden_singles (row_cells i) s))"
    using hidden_singles_fills [of b "row_cells i" m] Cons.prems fillsD(1) unfolding s
    by (auto simp: groups_mem)
  then show ?case using Cons.IH [of "row_hidden_singles i s"] Cons.prems(2) e by simp
qed

text \<open>
  Claim C6. On a 9 by 9 board and an in-bounds pivot, Rule 2 returns normally and treats
  the rows \<open>y, \<dots>, 8\<close> in turn: on the board as it is when the row is entered, it takes
  for each cell of the row the set difference between the candidates of the cell and the
  union of the candidates of all other cells of the row, and it assigns the value to the
  cell exactly when that difference has exactly one value; it logs the cells it assigned.
\<close>

theorem rule2_row_hidden_singles:
  assumes "nine_by_nine b" "0 \<le> x" "x \<le> 8" "0 \<le> y" "y \<le> 8"
  shows "rule2 b x y = Inr (fold row_hidden_singles (map nat [y..8]) (b, []))"
proof -
  have "fold hidden_singles (map (\<lambda>i. row_cells (nat i)) [y..8]) (b, [])
      = fold hidden_singles (map row_cells (map nat [y..8])) (b, [])"
    by (simp add: comp_def)
  also have "\<dots> = fold row_hidden_singles (map nat [y..8]) (b, [])"
    using assms(1,4) by (intro fold_rows) auto
  finally show ?thesis using rule2_exact [OF assms(1,4), of x] by simp
qed

theorem rule2_row_hidden_singles_witness:
  "nine_by_nine scenario_B
   \<and> rule2 scenario_B 1 0 = Inr (fold row_hidden_singles (map nat [0..8]) (scenario_B, []))"
proof -
  have "(0 :: int) \<le> 1" "(1 :: int) \<le> 8" "(0 :: int) \<le> 0" "(0 :: int) \<le> 8" by simp_all
  then show ?thesis
    using rule2_row_hidden_singles [OF scenario_B_shape(1), of 1 0] scenario_B_shape(1) by blast
qed

subsection \<open>Running a rule twice\<close>

lemma rule_fills:
  assumes "rule \<in> {rule1, rule2, rule3, rule4}" "nine_by_nine b" "0 \<le> x" "0 \<le> y"
  shows "\<exists>b' m. rule b x y = Inr (b', m) \<and> fills b b' m"
proof -
  have 1: "\<exists>b' m. rule1 b x y = Inr (b', m) \<and> fills b b' m"
    using rule1_fills [OF assms(2), of x y] assms(3,4) by simp
  have 2: "\<exists>b' m. rule2 b x y = Inr (b', m) \<and> fills b b' m"
    using rule2_exact [OF assms(2,4), of x] by (metis prod.collapse)
  have 3: "\<exists>b' m. rule3 b x y = Inr (b', m) \<and> fills b b' m"
    using rule3_exact [OF assms(2,3), of y] by (metis prod.collapse)
  have 4: "\<exists>b' m. rule4 b x y = Inr (b', m) \<and> fills b b' m"
    using rule4_exact [OF assms(2,3,4)] by (metis prod.collapse)
  show ?thesis using assms(1) 1 2 3 4 by auto
qed

lemma fills_get_cell:
  assumes "fills b b' m" "nine_by_nine b"
  shows "\<not> out_of_bounds i j \<and> get_cell b i j \<noteq> Inr 0 \<longrightarrow> get_cell b' i j = get_cell b i j"
    "c \<in> set m \<longrightarrow> get_cell b (fst c) (snd c) = Inr 0 \<and> get_cell b' (fst c) (snd c) \<noteq> Inr 0"
    "\<not> out_of_bounds i j \<and> (i, j) \<notin> set m \<longrightarrow> get_cell b' i j = get_cell b i j"
proof -
  have nat_ij: "nat i < 9 \<and> nat j < 9 \<and> int (nat i) = i \<and> int (nat j) = j"
    if "\<not> out_of_bounds i j" for i j
    using that by (auto simp: out_of_bounds_def)
  show "\<not> out_of_bounds i j \<and> get_cell b i j \<noteq> Inr 0 \<longrightarrow> get_cell b' i j = get_cell b i j"
    using fills_extends [OF assms(1), of "nat i" "nat j"] nat_ij [of i j]
    by (auto simp: get_cell_def)
  show "c \<in> set m \<longrightarrow> get_cell b (fst c) (snd c) = Inr 0 \<and> get_cell b' (fst c) (snd c) \<noteq> Inr 0"
  proof
    assume c: "c \<in> set m"
    note ib = fillsD(2) [OF assms(1) c]
    have "(int (nat (fst c)), int (nat (snd c))) \<in> set m" using nat_ij [OF ib] c by simp
    then show "get_cell b (fst c) (snd c) = Inr 0 \<and> get_cell b' (fst c) (snd c) \<noteq> Inr 0"
      using fillsD(3) [OF assms(1), of "nat (fst c)" "nat (snd c)"] nat_ij [OF ib] ib
      by (auto simp: get_cell_def)
  qed
  show "\<not> out_of_bounds i j \<and> (i, j) \<notin> set m \<longrightarrow> get_cell b' i j = get_cell b i j"
    using fillsD(4) [OF assms(1), of "nat i" "nat j"] nat_ij [of i j]
    by (auto simp: get_cell_def)
qed

text \<open>
  Claim C5, as the code has it. Each of the four rules is a function of the board and the
  pivot and returns normally on a 9 by 9 board and an in-bounds pivot. A second run right
  after the first changes no cell that is nonzero after the first run, so every cell that
  the first run filled keeps its value; the second run writes only cells that were still
  empty, and it logs exactly the cells it changes.
\<close>

theorem rules_second_run:
  assumes "rule \<in> {rule1, rule2, rule3, rule4}" "nine_by_nine b"
    and "0 \<le> x" "x \<le> 8" "0 \<le> y" "y \<le> 8"
  shows "\<exists>b1 m1 b2 m2. rule b x y = Inr (b1, m1) \<and> rule b1 x y = Inr (b2, m2)
     \<and> (\<forall>i j. \<not> out_of_bounds i j \<and> get_cell b1 i j \<noteq> Inr 0 \<longrightarrow> get_cell b2 i j = get_cell b1 i j)
     \<and> (\<forall>c\<in>set m2. get_cell b1 (fst c) (snd c) = Inr 0 \<and> get_cell b2 (fst c) (snd c) \<noteq> Inr 0)
     \<and> (\<forall>i j. \<not> out_of_bounds i j \<and> (i, j) \<notin> set m2 \<longrightarrow> get_cell b2 i j = get_cell b1 i j)"
proof -
  obtain b1 m1 where 1: "rule b x y = Inr (b1, m1)" "fills b b1 m1"
    using rule_fills [OF assms(1,2,3,5)] by blast
  note n1 = fillsD(1) [OF 1(2)]
  obtain b2 m2 where 2: "rule b1 x y = Inr (b2, m2)" "fills b1 b2 m2"
    using rule_fills [OF assms(1) n1 assms(3,5)] by blast
  show ?thesis using 1(1) 2(1) fills_get_cell [OF 2(2) n1] by blast
qed

theorem rules_second_run_witness:
  "rule1 \<in> {rule1, rule2, rule3, rule4} \<and> nine_by_nine repeat_example
   \<and> (\<exists>b1 m1 b2 m2. rule1 repeat_example 0 0 = Inr (b1, m1) \<and> rule1 b1 0 0 = Inr (b2, m2)
     \<and> (\<forall>i j. \<not> out_of_bounds i j \<and> get_cell b1 i j \<noteq> Inr 0 \<longrightarrow> get_cell b2 i j = get_cell b1 i j)
     \<and> (\<forall>c\<in>set m2. get_cell b1 (fst c) (snd c) = Inr 0 \<and> get_cell b2 (fst c) (snd c) \<noteq> Inr 0)
     \<and> (\<forall>i j. \<not> out_of_bounds i j \<and> (i, j) \<notin> set m2 \<longrightarrow> get_cell b2 i j = get_cell b1 i j))"
proof -
  have n: "nine_by_nine repeat_example" by code_simp
  have r: "rule1 \<in> {rule1, rule2, rule3, rule4}" by simp
  have "(0 :: int) \<le> 0" "(0 :: int) \<le> 8" by simp_all
  then show ?thesis using rules_second_run [OF r n, of 0 0] n r by blast
qed

text \<open>
  Claim C5 as stated fails: none of the four rules is idempotent. On the boards below the
  second run of each rule fills further cells and changes the board.
\<close>

theorem rules_not_idempotent:
  "twice rule1 repeat_example 0 0 = Inr ([(2, 0)], [(1, 0)], False)
   \<and> twice rule2 scenario_B 1 0
       = Inr ([(0, 2), (3, 3), (8, 5), (0, 6), (7, 7)], [(4, 2), (5, 7), (6, 7), (8, 8)], False)
   \<and> twice rule3 scenario_B 1 0 = Inr ([(3, 3), (8, 0), (8, 5)], [(7, 7), (8, 8)], False)
   \<and> twice rule4 scenario_B 1 0
       = Inr ([(0, 2), (3, 3), (8, 5), (0, 6), (3, 6), (7, 7)], [(8, 0), (2, 8), (6, 7), (8, 8)], False)"
  by code_simp

section \<open>The search\<close>

lemma empties_subset: "empties b \<subseteq> {0..<9} \<times> {0..<9}"
  by (auto simp: empties_def)

lemma finite_empties: "finite (empties b)"
  using empties_subset by (rule finite_subset) simp

lemma card_empties: "card (empties b) \<le> 81"
  using card_mono [OF _ empties_subset, of b] by simp

lemma clone_ok: "nine_by_nine b \<Longrightarrow> in_range b \<Longrightarrow> clone b = Inr b"
  by (fastforce simp: clone_def checked_def nine_by_nine_def in_range_def list_all_iff list_ex_iff)

lemma delete_cell_put:
  assumes "0 \<le> x" "x \<le> 8" "0 \<le> y" "y \<le> 8"
  shows "delete_cell b x y = Inr (put b (nat x) (nat y) 0)"
  using assms by (simp add: delete_cell_def out_of_bounds_def put_def)

lemma undo_cells:
  assumes "nine_by_nine b" "\<forall>c\<in>set m. \<not> out_of_bounds (fst c) (snd c)"
  shows "\<exists>b'. undo m b = Inr b' \<and> nine_by_nine b'
     \<and> (\<forall>x<9. \<forall>y<9. b' ! y ! x = (if (int x, int y) \<in> set m then 0 else b ! y ! x))"
  using assms
proof (induction m arbitrary: b)
  case Nil
  then show ?case by (simp add: undo_def)
next
  case (Cons c m)
  have c: "0 \<le> fst c" "fst c \<le> 8" "0 \<le> snd c" "snd c \<le> 8"
    using Cons.prems(2) by (auto simp: out_of_bounds_def)
  let ?b1 = "put b (nat (fst c)) (nat (snd c)) 0"
  have d: "delete_cell b (fst c) (snd c) = Inr ?b1" using c by (rule delete_cell_put)
  have n1: "nine_by_nine ?b1" using Cons.prems(1) by (rule nine_by_nine_put)
  obtain b' where b': "undo m ?b1 = Inr b'" "nine_by_nine b'"
      "\<forall>x<9. \<forall>y<9. b' ! y ! x = (if (int x, int y) \<in> set m then 0 else ?b1 ! y ! x)"
    using Cons.IH [OF n1] Cons.prems(2) by auto
  have u: "undo (c # m) b = Inr b'" using d b'(1) by (simp add: undo_def)
  have "b' ! y ! x = (if (int x, int y) \<in> set (c # m) then 0 else b ! y ! x)"
    if "x < 9" "y < 9" for x y
  proof (cases "(int x, int y) = c")
    case True
    then have "nat (fst c) = x" "nat (snd c) = y" by auto
    then have "?b1 ! y ! x = 0" using Cons.prems(1) that by (simp add: put_nth)
    then show ?thesis using b'(3) that True by simp
  next
    case False
    then have "\<not> (x = nat (fst c) \<and> y = nat (snd c))" using c by (auto simp: prod_eq_iff)
    then have "?b1 ! y ! x = b ! y ! x" using Cons.prems(1) that c by (auto simp: put_nth)
    then show ?thesis using b'(3) that False by auto
  qed
  then show ?case using u b'(2) by blast
qed

lemma findIndex_found:
  assumes "\<exists>x\<in>set xs. p x"
  shows "0 \<le> findIndex p xs \<and> nat (findIndex p xs) < length xs \<and> p (xs ! nat (findIndex p xs))"
  using assms
proof (induction xs)
  case Nil
  then show ?case by simp
next
  case (Cons a xs)
  show ?case
  proof (cases "p a")
    case True
    then show ?thesis by simp
  next
    case False
    then have "\<exists>x\<in>set xs. p x" using Cons.prems by simp
    then have IH: "0 \<le> findIndex p xs" "nat (findIndex p xs) < length xs"
        "p (xs ! nat (findIndex p xs))"
      using Cons.IH by simp_all
    then have "nat (findIndex p xs + 1) = Suc (nat (findIndex p xs))" by simp
    then show ?thesis using False IH by (simp add: Let_def)
  qed
qed

lemma nextOpenCell_open:
  assumes "nine_by_nine b" "x0 < 9" "y0 < 9" "b ! y0 ! x0 = 0"
  shows "\<exists>x y. nextOpenCell b = (x, y) \<and> 0 \<le> x \<and> x \<le> 8 \<and> 0 \<le> y \<and> y \<le> 8
            \<and> b ! nat y ! nat x = 0"
proof -
  let ?y = "findIndex (\<lambda>row. 0 \<in> set row) b"
  let ?x = "findIndex (\<lambda>c. c = 0) (b ! nat ?y)"
  have "b ! y0 \<in> set b" "0 \<in> set (b ! y0)"
    using assms by (auto simp: nine_by_nineD in_set_conv_nth)
  then have "\<exists>row\<in>set b. 0 \<in> set row" by blast
  then have y: "0 \<le> ?y" "nat ?y < length b" "0 \<in> set (b ! nat ?y)"
    using findIndex_found [of b "\<lambda>row. 0 \<in> set row"] by simp_all
  then have "\<exists>c\<in>set (b ! nat ?y). c = 0" by simp
  then have x: "0 \<le> ?x" "nat ?x < length (b ! nat ?y)" "b ! nat ?y ! nat ?x = 0"
    using findIndex_found [of "b ! nat ?y" "\<lambda>c. c = 0"] by simp_all
  have "nat ?y < 9" "nat ?x < 9" using y(2) x(2) assms(1) by (simp_all add: nine_by_nineD)
  then have "?x \<le> 8" "?y \<le> 8" by simp_all
  moreover have "nextOpenCell b = (?x, ?y)" using y(1) by (simp add: nextOpenCell_def Let_def)
  ultimately show ?thesis using x(1,3) y(1) by blast
qed

lemma trial_restores:
  assumes "nine_by_nine b" "0 \<le> x" "x \<le> 8" "0 \<le> y" "y \<le> 8" "1 \<le> c" "c \<le> 9"
    and "propagate b x y = Inr (b1, modified)"
    and "recurse (put b1 (nat x) (nat y) c, sols) = Some (Inr (put b1 (nat x) (nat y) c, sols'))"
  shows "\<exists>b'. trial recurse x y c (b, sols) = Some (Inr (b', sols')) \<and> nine_by_nine b'
     \<and> (\<forall>i<9. \<forall>j<9. b' ! j ! i = (if (int i, int j) \<in> set modified then 0 else b ! j ! i))"
proof -
  obtain m where m: "modified = (x, y) # m" "fills b b1 m"
    using propagate_fills [OF assms(1-5)] assms(8) by auto
  let ?b2 = "put b1 (nat x) (nat y) c"
  have xy: "nat x < 9" "nat y < 9" using assms(2-5) by simp_all
  have n1: "nine_by_nine b1" using m(2) by (rule fillsD(1))
  have n2: "nine_by_nine ?b2" using n1 by (rule nine_by_nine_put)
  have s: "set_cell b1 x y c = Inr ?b2" using assms(2-7) by (intro set_cell_put) simp_all
  have ib: "\<forall>c\<in>set modified. \<not> out_of_bounds (fst c) (snd c)"
    using fillsD(2) [OF m(2)] assms(2-5) unfolding m(1) by (auto simp: out_of_bounds_def)
  obtain b' where b': "undo modified ?b2 = Inr b'" "nine_by_nine b'"
      "\<forall>i<9. \<forall>j<9. b' ! j ! i = (if (int i, int j) \<in> set modified then 0 else ?b2 ! j ! i)"
    using undo_cells [OF n2 ib] by blast
  have t: "trial recurse x y c (b, sols) = Some (Inr (b', sols'))"
    using assms(8,9) s b'(1) by (simp add: trial_def)
  have "b' ! j ! i = (if (int i, int j) \<in> set modified then 0 else b ! j ! i)"
    if ij: "i < 9" "j < 9" for i j
  proof (cases "(int i, int j) \<in> set modified")
    case True
    then show ?thesis using b'(3) ij by simp
  next
    case False
    then have np: "\<not> (i = nat x \<and> j = nat y)" and nm: "(int i, int j) \<notin> set m"
      using assms(2,4) unfolding m(1) by auto
    have "b' ! j ! i = ?b2 ! j ! i" using b'(3) ij False by simp
    also have "\<dots> = b1 ! j ! i" using n1 xy ij np by (auto simp: put_nth)
    also have "\<dots> = b ! j ! i" using fillsD(4) [OF m(2) ij nm] .
    finally show ?thesis using False by simp
  qed
  then show ?thesis using t b'(2) by blast
qed

lemma completion_pivot:
  assumes "fills b b1 m" "x < 9" "y < 9" "b ! y ! x = 0" "c \<noteq> 0"
  shows "completion s (put b1 x y c) \<longleftrightarrow> completion s b \<and> s ! y ! x = c"
proof
  note n1 = fillsD(1) [OF assms(1)]
  assume c: "completion s (put b1 x y c)"
  have "s ! j ! i = b ! j ! i" if ij: "i < 9" "j < 9" "b ! j ! i \<noteq> 0" for i j
  proof -
    have np: "\<not> (i = x \<and> j = y)" using ij(3) assms(4) by auto
    have "b1 ! j ! i = b ! j ! i" using fills_extends [OF assms(1) ij] .
    moreover have "put b1 x y c ! j ! i = b1 ! j ! i"
      using n1 assms(2,3) ij(1,2) np by (auto simp: put_nth)
    ultimately show ?thesis using completionD(4) [OF c ij(1,2)] ij(3) by simp
  qed
  then have "completion s b" using c by (simp add: completion_def extends_iff)
  moreover have "s ! y ! x = c"
  proof -
    have "put b1 x y c ! y ! x = c" using n1 assms(2,3) by (simp add: put_nth)
    then show ?thesis using completionD(4) [OF c assms(2,3)] assms(5) by simp
  qed
  ultimately show "completion s b \<and> s ! y ! x = c" by simp
next
  note n1 = fillsD(1) [OF assms(1)]
  assume c: "completion s b \<and> s ! y ! x = c"
  then have c1: "completion s b1" using fills_completion [OF assms(1)] by simp
  have "s ! j ! i = put b1 x y c ! j ! i" if ij: "i < 9" "j < 9" "put b1 x y c ! j ! i \<noteq> 0" for i j
  proof (cases "i = x \<and> j = y")
    case True
    then show ?thesis using c n1 assms(2,3) by (simp add: put_nth)
  next
    case False
    then have "put b1 x y c ! j ! i = b1 ! j ! i"
      using n1 assms(2,3) ij(1,2) by (auto simp: put_nth)
    then show ?thesis using completionD(4) [OF c1 ij(1,2)] ij(3) by simp
  qed
  then show "completion s (put b1 x y c)" using c1 by (simp add: completion_def extends_iff)
qed

lemma empties_pivot:
  assumes "fills b b1 m" "x < 9" "y < 9" "b ! y ! x = 0" "c \<noteq> 0"
  shows "card (empties (put b1 x y c)) < card (empties b)"
proof (rule psubset_card_mono [OF finite_empties])
  note n1 = fillsD(1) [OF assms(1)]
  have "(x, y) \<in> empties b" using assms(2-4) by (simp add: empties_def)
  moreover have "(x, y) \<notin> empties (put b1 x y c)"
    using n1 assms(2,3,5) by (simp add: empties_def put_nth)
  moreover have "empties (put b1 x y c) \<subseteq> empties b"
  proof
    fix p assume p: "p \<in> empties (put b1 x y c)"
    obtain i j where ij: "p = (i, j)" by (cases p)
    have b: "i < 9" "j < 9" "put b1 x y c ! j ! i = 0" using p unfolding ij empties_def by auto
    then have "\<not> (i = x \<and> j = y)" using n1 assms(2,3,5) by (auto simp: put_nth)
    then have "b1 ! j ! i = 0" using b n1 assms(2,3) by (auto simp: put_nth)
    then have "b ! j ! i = 0" using fills_extends [OF assms(1) b(1,2)] by auto
    then show "p \<in> empties b" using b(1,2) by (simp add: ij empties_def)
  qed
  ultimately show "empties (put b1 x y c) \<subset> empties b" by blast
qed

lemma forEachF_trials:
  assumes "\<And>c sols. c \<in> set cs \<Longrightarrow>
      \<exists>new. f c (b, sols) = Some (Inr (b, sols @ new)) \<and> set new = {s. Q s \<and> key s = c}
         \<and> distinct new"
    and "distinct cs"
  shows "\<exists>new. forEachF f cs (b, sols) = Some (Inr (b, sols @ new))
            \<and> set new = {s. Q s \<and> key s \<in> set cs} \<and> distinct new"
  using assms
proof (induction cs arbitrary: sols)
  case Nil
  then show ?case by simp
next
  case (Cons c cs)
  obtain new1 where 1: "f c (b, sols) = Some (Inr (b, sols @ new1))" "set new1 = {s. Q s \<and> key s = c}"
      "distinct new1"
    using Cons.prems(1) [of c sols] by auto
  obtain new2 where 2: "forEachF f cs (b, sols @ new1) = Some (Inr (b, (sols @ new1) @ new2))"
      "set new2 = {s. Q s \<and> key s \<in> set cs}" "distinct new2"
    using Cons.IH [of "sols @ new1"] Cons.prems by auto
  have "forEachF f (c # cs) (b, sols) = Some (Inr (b, sols @ (new1 @ new2)))"
    using 1(1) 2(1) by simp
  moreover have "set (new1 @ new2) = {s. Q s \<and> key s \<in> set (c # cs)}"
    using 1(2) 2(2) by auto
  moreover have "set new1 \<inter> set new2 = {}" using 1(2) 2(2) Cons.prems(2) by auto
  then have "distinct (new1 @ new2)" using 1(3) 2(3) by simp
  ultimately show ?case by blast
qed

lemma display_terminal [simp]: "display True = Inr ()"
  by (simp add: display_def)

lemma backtrack_main:
  assumes "nine_by_nine b" "in_range b" "card (empties b) < n"
  shows "\<exists>new. backtrack True n (b, sols) = Some (Inr (b, sols @ new)) \<and> set new = {s. completion s b}
     \<and> distinct new"
  using assms
proof (induction n arbitrary: b sols)
  case 0
  then show ?case by simp
next
  case (Suc n)
  note nb = Suc.prems(1) and rb = Suc.prems(2)
  show ?case
  proof (cases "okay b")
    case False
    then have "{s. completion s b} = {}" using completion_okay nb by blast
    then show ?thesis using False by simp
  next
    case True
    show ?thesis
    proof (cases "solved b")
      case True
      have nz: "\<forall>y<9. \<forall>x<9. b ! y ! x \<noteq> 0"
        using True nb by (simp add: solved_def all_nonzero_iff)
      have "completion b b" using nb rb True by (simp add: completion_def extends_iff)
      moreover have "s = b" if "completion s b" for s
        using completionD(1) [OF that] nb completionD(4) [OF that] nz by (intro grid_eqI) simp_all
      ultimately have "set [b] = {s. completion s b}" by auto
      moreover have "backtrack True (Suc n) (b, sols) = Some (Inr (b, sols @ [b]))"
        using \<open>okay b\<close> True clone_ok [OF nb rb] by simp
      moreover have "distinct [b]" by simp
      ultimately show ?thesis by blast
    next
      case False
      then obtain x0 y0 where "x0 < 9" "y0 < 9" "b ! y0 ! x0 = 0"
        using \<open>okay b\<close> nb by (auto simp: solved_def all_nonzero_iff)
      then obtain x y where xy: "nextOpenCell b = (x, y)" "0 \<le> x" "x \<le> 8" "0 \<le> y" "y \<le> 8"
          "b ! nat y ! nat x = 0"
        using nextOpenCell_open [OF nb] by blast
      have nxy: "nat x < 9" "nat y < 9" using xy(2-5) by simp_all
      obtain cs where cs: "candidates b x y = Inr cs" "set cs = cand b (nat x) (nat y)" "distinct cs"
        using candidates_cand [OF nb xy(2-5)] by blast
      have tr: "\<exists>new. trial (backtrack True n) x y c (b, sols) = Some (Inr (b, sols @ new))
          \<and> set new = {s. completion s b \<and> s ! nat y ! nat x = c} \<and> distinct new"
        if c: "c \<in> set cs" for c sols
      proof -
        have cr: "1 \<le> c" "c \<le> 9" using c cs(2) by (auto simp: cand_def split: if_splits)
        obtain b1 m where p: "propagate b x y = Inr (b1, (x, y) # m)" "fills b b1 m"
          using propagate_fills [OF nb xy(2-5)] by blast
        let ?b2 = "put b1 (nat x) (nat y) c"
        note n1 = fillsD(1) [OF p(2)]
        have n2: "nine_by_nine ?b2" using n1 by (rule nine_by_nine_put)
        have r2: "in_range ?b2"
          using n1 fills_in_range [OF p(2) nb rb] nxy cr by (intro in_range_put) simp_all
        have "card (empties ?b2) < card (empties b)"
          using p(2) nxy xy(6) cr(1) by (intro empties_pivot) auto
        then have "card (empties ?b2) < n" using Suc.prems(3) by simp
        then obtain new where new: "backtrack True n (?b2, sols) = Some (Inr (?b2, sols @ new))"
            "set new = {s. completion s ?b2}" "distinct new"
          using Suc.IH [OF n2 r2] by blast
        obtain b' where b': "trial (backtrack True n) x y c (b, sols) = Some (Inr (b', sols @ new))"
            "nine_by_nine b'"
            "\<forall>i<9. \<forall>j<9. b' ! j ! i = (if (int i, int j) \<in> set ((x, y) # m) then 0 else b ! j ! i)"
          using trial_restores [of b x y c b1 "(x, y) # m" "backtrack True n" sols "sols @ new",
              OF nb xy(2-5) cr p(1) new(1)] by blast
        have "b' ! j ! i = b ! j ! i" if ij: "i < 9" "j < 9" for i j
        proof (cases "(int i, int j) \<in> set ((x, y) # m)")
          case False
          have "b' ! j ! i = (if (int i, int j) \<in> set ((x, y) # m) then 0 else b ! j ! i)"
            using b'(3) ij by blast
          then show ?thesis using False by (simp only: if_False)
        next
          case True
          then have "b ! j ! i = 0"
            using xy(2,4,6) fillsD(3) [OF p(2) ij] by auto
          moreover have "b' ! j ! i = (if (int i, int j) \<in> set ((x, y) # m) then 0 else b ! j ! i)"
            using b'(3) ij by blast
          ultimately show ?thesis using True by (simp only: if_True)
        qed
        then have "b' = b" using b'(2) nb by (intro grid_eqI) simp_all
        moreover have "{s. completion s ?b2} = {s. completion s b \<and> s ! nat y ! nat x = c}"
          using completion_pivot [OF p(2) nxy xy(6)] cr(1) by simp
        ultimately show ?thesis using b'(1) new(2,3) by auto
      qed
      obtain new where new: "forEachF (trial (backtrack True n) x y) cs (b, sols) = Some (Inr (b, sols @ new))"
          "set new = {s. completion s b \<and> s ! nat y ! nat x \<in> set cs}" "distinct new"
        using forEachF_trials [of cs "trial (backtrack True n) x y" b "\<lambda>s. completion s b"
            "\<lambda>s. s ! nat y ! nat x" sols] tr cs(3) by blast
      have "set new = {s. completion s b}"
        using new(2) cs(2) completion_in_cand [OF _ nxy xy(6)] by auto
      moreover have "backtrack True (Suc n) (b, sols) = forEachF (trial (backtrack True n) x y) cs (b, sols)"
        using \<open>okay b\<close> False xy(1,2,4) cs(1) by simp
      ultimately show ?thesis using new(1,3) by auto
    qed
  qed
qed

section \<open>Objects and \<open>solve\<close>\<close>

lemma contents_copy_rows: "contents (h @ b) [length h..<length h + length b] = b"
  by (rule nth_equalityI) (simp_all add: contents_def nth_append)

lemma store_length: "length (store h refs b) = length h"
proof -
  have "length (fold (\<lambda>rw h. h[fst rw := snd rw]) rws h) = length h" for rws
    by (induction rws arbitrary: h) simp_all
  then show ?thesis by (simp add: store_def)
qed

lemma store_other: "r \<notin> set refs \<Longrightarrow> store h refs b ! r = h ! r"
proof -
  have "fold (\<lambda>rw h. h[fst rw := snd rw]) rws h ! r = h ! r" if "r \<notin> fst ` set rws" for rws
    using that by (induction rws arbitrary: h) auto
  moreover assume "r \<notin> set refs"
  then have "r \<notin> fst ` set (zip refs b)" by (auto dest: set_zip_leftD)
  ultimately show ?thesis by (simp add: store_def)
qed

lemma checked_iff: "checked b = Inr b' \<longleftrightarrow> b' = b \<and> nine_by_nine b \<and> in_range b"
proof -
  have 1: "list_ex (\<lambda>row. length row \<noteq> 9) b \<longleftrightarrow> \<not> list_all (\<lambda>row. length row = 9) b"
    by (auto simp: list_all_iff list_ex_iff)
  have 2: "list_ex (\<lambda>cell. cell < 0 \<or> cell > 9) (concat b)
      \<longleftrightarrow> \<not> list_all (\<lambda>cell. 0 \<le> cell \<and> cell \<le> 9) (concat b)"
    unfolding list_all_iff list_ex_iff by (meson not_le)
  show ?thesis unfolding checked_def 1 2 nine_by_nine_def in_range_def by auto
qed

lemma Sudoku_new_Inr:
  assumes "Sudoku_new h input = Inr (h', this)"
  defines "g \<equiv> (case input of Text text \<Rightarrow> parse text | Matrix m \<Rightarrow> m)"
  shows "nine_by_nine g" "in_range g" "h' = h @ g @ g"
    "board this = [length h..<length h + 9]" "contents h' (board this) = g"
proof -
  have c: "checked (contents (h @ g) [length h..<length h + length g]) = checked g"
    by (simp add: contents_copy_rows)
  obtain b where b: "checked g = Inr b"
    using assms(1) unfolding Sudoku_new_def copy_rows_def g_def [symmetric] prod.case c
    by (cases "checked g") simp_all
  then have g: "b = g" "nine_by_nine g" "in_range g" by (simp_all add: checked_iff)
  then show "nine_by_nine g" "in_range g" by simp_all
  have l: "length g = 9" using g(2) by (rule nine_by_nineD(1))
  have e: "h' = h @ g @ g \<and> this = \<lparr>board = [length h..<length h + 9],
      original = [length h + 9..<length h + 9 + 9]\<rparr>"
    using assms(1) unfolding Sudoku_new_def copy_rows_def g_def [symmetric] prod.case c b g(1)
    by (simp add: l)
  then show "h' = h @ g @ g" "board this = [length h..<length h + 9]" by simp_all
  have "contents ((h @ g) @ g) [length h..<length h + length g] = g"
    by (rule nth_equalityI) (simp_all add: contents_def nth_append)
  then show "contents h' (board this) = g" using e l by simp
qed

lemma solve_main:
  assumes "\<forall>r\<in>set (board this). r < length h" "nine_by_nine (contents h (board this))"
    and "in_range (contents h (board this))" "81 < fuel"
  shows "\<exists>h' r new. solve True fuel h this = Some (Inr (h', r))
     \<and> take (length h) h' = h
     \<and> contents h' (board this) = contents h (board this)
     \<and> r = (if \<not> okay (contents h (board this)) \<or> new = [] then None else Some new)
     \<and> (okay (contents h (board this)) \<longrightarrow>
          set new = {s. completion s (contents h (board this))} \<and> distinct new)"
proof (cases "okay (contents h (board this))")
  case False
  then show ?thesis by (auto simp: solve_def)
next
  case True
  define g where "g = contents h (board this)"
  define h1 where "h1 = h @ g @ g"
  define work where "work = \<lparr>board = [length h..<length h + 9], original = [length h + 9..<length h + 9 + 9]\<rparr>"
  have l: "length g = 9" using assms(2) unfolding g_def by (rule nine_by_nineD(1))
  have c: "checked (contents (h @ g) [length h..<length h + length g]) = Inr g"
    using assms(2,3) by (simp add: contents_copy_rows checked_iff g_def)
  have new: "Sudoku_new h (Matrix g) = Inr (h1, work)"
    unfolding Sudoku_new_def copy_rows_def board_input.case prod.case c
    by (simp add: l h1_def work_def)
  have cw: "contents h1 (board work) = g"
    using Sudoku_new_Inr(5) [OF new] by simp
  have "card (empties g) < fuel" using card_empties [of g] assms(4) by simp
  then obtain sols where sols: "backtrack True fuel (g, []) = Some (Inr (g, [] @ sols))"
      "set sols = {s. completion s g}" "distinct sols"
    using backtrack_main [of g fuel "[]"] assms(2,3) unfolding g_def by blast
  let ?h' = "store h1 (board work) g"
  have s: "solve True fuel h this = Some (Inr (?h', if sols = [] then None else Some sols))"
    using True new cw sols(1) by (simp add: solve_def g_def [symmetric])
  have old: "?h' ! r = h ! r" if "r < length h" for r
  proof -
    have "r \<notin> set (board work)" using that by (simp add: work_def)
    then have "?h' ! r = h1 ! r" by (rule store_other)
    then show ?thesis using that by (simp add: h1_def nth_append)
  qed
  have t: "take (length h) ?h' = h"
  proof (rule nth_equalityI)
    show "length (take (length h) ?h') = length h" by (simp add: store_length h1_def)
  next
    fix i assume "i < length (take (length h) ?h')"
    then have "i < length h" by simp
    then show "take (length h) ?h' ! i = h ! i" using old by simp
  qed
  have k: "contents ?h' (board this) = contents h (board this)"
    using assms(1) old by (simp add: contents_def)
  show ?thesis using s t k sols(2,3) True unfolding g_def [symmetric] by auto
qed

lemma Sudoku_new_valid:
  assumes "Sudoku_new h0 input = Inr (h, this)"
  shows "\<forall>r\<in>set (board this). r < length h" "nine_by_nine (contents h (board this))"
    "in_range (contents h (board this))"
proof -
  note n = Sudoku_new_Inr [OF assms]
  show "\<forall>r\<in>set (board this). r < length h"
    using n(1,3,4) by (auto simp: nine_by_nineD(1))
  show "nine_by_nine (contents h (board this))" "in_range (contents h (board this))"
    using n(1,2,5) by simp_all
qed

lemma solve_without_terminal:
  assumes "Sudoku_new h0 input = Inr (h, this)" "okay (contents h (board this))" "0 < fuel"
  shows "solve False fuel h this
     = Some (Inl (TypeError ''process.stdout.cursorTo is not a function''))"
proof -
  define g where "g = contents h (board this)"
  have ng: "nine_by_nine g" "in_range g"
    using Sudoku_new_valid(2,3) [OF assms(1)] by (simp_all add: g_def)
  have c: "checked (contents (h @ g) [length h..<length h + length g]) = Inr g"
    using ng by (simp add: contents_copy_rows checked_iff)
  obtain h1 work where new: "Sudoku_new h (Matrix g) = Inr (h1, work)"
    unfolding Sudoku_new_def copy_rows_def board_input.case prod.case c by simp
  obtain n where n: "fuel = Suc n" using assms(3) by (cases fuel) simp_all
  have "backtrack False fuel (contents h1 (board work), [])
      = Some (Inl (TypeError ''process.stdout.cursorTo is not a function''))"
    unfolding n by (simp add: display_def)
  then show ?thesis using assms(2) new by (simp add: solve_def g_def [symmetric])
qed

section \<open>The undo log, the caller's board and the result of \<open>solve\<close>\<close>

lemma scenario_B_new: "Sudoku_new [] (Matrix scenario_B) = Inr (scenario_B_heap, scenario_B_object)"
proof -
  have "checked scenario_B = Inr scenario_B" using scenario_B_shape by (simp add: checked_iff)
  moreover have "length scenario_B = 9" by (simp add: scenario_B_def)
  moreover have "contents scenario_B [0..<9] = scenario_B"
    using contents_copy_rows [of "[]" scenario_B] calculation(2) by simp
  ultimately show ?thesis
    by (simp add: Sudoku_new_def copy_rows_def scenario_B_heap_def scenario_B_object_def upt_rec)
qed

lemma scenario_B_okay: "okay scenario_B" "\<not> solved scenario_B"
  by code_simp+

text \<open>
  Claim C1. Take any board of the right shape, an empty pivot cell \<open>(x, y)\<close> in bounds, a
  candidate value between 1 and 9 and enough fuel for the recursion, with standard output
  a terminal, so that the display of the recursive call succeeds. The trial of that
  candidate returns normally; afterwards every cell of its undo log \<open>modified\<close> (the pivot
  and the cells filled by rules 1 to 4) reads back as 0, and every other cell holds the
  value it held before the trial.
\<close>

theorem trial_undo_log:
  assumes "nine_by_nine b" "in_range b" "0 \<le> x" "x \<le> 8" "0 \<le> y" "y \<le> 8"
    and "b ! nat y ! nat x = 0" "1 \<le> c" "c \<le> 9" "card (empties b) \<le> n"
    and "isTTY"
  shows "\<exists>b1 modified b' solutions'.
      propagate b x y = Inr (b1, modified)
    \<and> trial (backtrack isTTY n) x y c (b, solutions) = Some (Inr (b', solutions'))
    \<and> (\<forall>cell\<in>set modified. get_cell b' (fst cell) (snd cell) = Inr 0)
    \<and> (\<forall>i j. \<not> out_of_bounds i j \<and> (i, j) \<notin> set modified
           \<longrightarrow> get_cell b' i j = get_cell b i j)"
proof -
  have tty: "isTTY = True" using assms(11) by simp
  have xy: "nat x < 9" "nat y < 9" using assms(3-6) by simp_all
  obtain b1 m where p: "propagate b x y = Inr (b1, (x, y) # m)" "fills b b1 m"
    using propagate_fills [OF assms(1,3-6)] by blast
  let ?b2 = "put b1 (nat x) (nat y) c"
  note n1 = fillsD(1) [OF p(2)]
  have n2: "nine_by_nine ?b2" using n1 by (rule nine_by_nine_put)
  have r2: "in_range ?b2"
    using n1 fills_in_range [OF p(2) assms(1,2)] xy assms(8,9) by (intro in_range_put) simp_all
  have "card (empties ?b2) < card (empties b)"
    using p(2) xy assms(7,8) by (intro empties_pivot) auto
  then have "card (empties ?b2) < n" using assms(10) by simp
  then obtain new where new: "backtrack True n (?b2, solutions) = Some (Inr (?b2, solutions @ new))"
    using backtrack_main [OF n2 r2] by blast
  obtain b' where b': "trial (backtrack True n) x y c (b, solutions) = Some (Inr (b', solutions @ new))"
      "\<forall>i<9. \<forall>j<9. b' ! j ! i = (if (int i, int j) \<in> set ((x, y) # m) then 0 else b ! j ! i)"
    using trial_restores [of b x y c b1 "(x, y) # m" "backtrack True n" solutions "solutions @ new",
        OF assms(1,3-6,8,9) p(1) new] by blast
  have cellwise: "b' ! nat j ! nat i = (if (i, j) \<in> set ((x, y) # m) then 0 else b ! nat j ! nat i)"
    if "\<not> out_of_bounds i j" for i j
  proof -
    have "nat i < 9" "nat j < 9" "int (nat i) = i" "int (nat j) = j"
      using that by (auto simp: out_of_bounds_def)
    then show ?thesis using b'(2) by metis
  qed
  have ib: "\<not> out_of_bounds (fst cell) (snd cell)" if "cell \<in> set ((x, y) # m)" for cell
  proof (cases "cell = (x, y)")
    case True
    then show ?thesis using assms(3-6) by (simp add: out_of_bounds_def)
  next
    case False
    then have "cell \<in> set m" using that by simp
    then show ?thesis by (rule fillsD(2) [OF p(2)])
  qed
  have "get_cell b' (fst cell) (snd cell) = Inr 0" if "cell \<in> set ((x, y) # m)" for cell
    using cellwise [OF ib [OF that]] ib [OF that] that by (simp add: get_cell_def)
  moreover have "get_cell b' i j = get_cell b i j"
    if "\<not> out_of_bounds i j \<and> (i, j) \<notin> set ((x, y) # m)" for i j
    using cellwise [of i j] that by (auto simp: get_cell_def)
  ultimately show ?thesis unfolding tty using p(1) b'(1) by blast
qed

theorem trial_undo_log_witness:
  "nine_by_nine scenario_B \<and> in_range scenario_B \<and> scenario_B ! nat 0 ! nat 1 = 0
   \<and> card (empties scenario_B) \<le> 81
   \<and> (\<exists>b1 modified b' solutions'.
      propagate scenario_B 1 0 = Inr (b1, modified)
    \<and> trial (backtrack True 81) 1 0 2 (scenario_B, []) = Some (Inr (b', solutions'))
    \<and> (\<forall>cell\<in>set modified. get_cell b' (fst cell) (snd cell) = Inr 0)
    \<and> (\<forall>i j. \<not> out_of_bounds i j \<and> (i, j) \<notin> set modified
           \<longrightarrow> get_cell b' i j = get_cell scenario_B i j))"
proof -
  have z: "scenario_B ! nat 0 ! nat 1 = 0" by (simp add: scenario_B_def)
  show ?thesis
    using trial_undo_log [OF scenario_B_shape _ _ _ _ z _ _ card_empties, of 2 True "[]"]
      scenario_B_shape z card_empties [of scenario_B]
    by simp
qed

text \<open>
  Claim C2. For an object made by the constructor from any input that it accepts, and
  with standard output a terminal, \<open>solve\<close> returns normally and leaves the caller's
  board as it was: \<open>board\<close> and \<open>get\<close> answer after the call what they answered
  before it. Every row array that existed before the call is untouched, because the
  search writes only to the rows that the constructor copied for the working object.
\<close>

theorem solve_keeps_callers_board:
  assumes "Sudoku_new h0 input = Inr (h, this)" "81 < fuel" "isTTY"
  shows "\<exists>h' r. solve isTTY fuel h this = Some (Inr (h', r))
     \<and> get_board h' this = get_board h this
     \<and> (\<forall>x y. get_cell (get_board h' this) x y = get_cell (get_board h this) x y)
     \<and> take (length h) h' = h"
proof -
  obtain h' r where "solve True fuel h this = Some (Inr (h', r))" "take (length h) h' = h"
      "contents h' (board this) = contents h (board this)"
    using solve_main [OF Sudoku_new_valid [OF assms(1)] assms(2)] by blast
  then show ?thesis using assms(3) by (simp add: get_board_def)
qed

theorem solve_keeps_callers_board_witness:
  "Sudoku_new [] (Matrix scenario_B) = Inr (scenario_B_heap, scenario_B_object) \<and> (81 :: nat) < 82
   \<and> (\<exists>h' r. solve True 82 scenario_B_heap scenario_B_object = Some (Inr (h', r))
     \<and> get_board h' scenario_B_object = get_board scenario_B_heap scenario_B_object
     \<and> (\<forall>x y. get_cell (get_board h' scenario_B_object) x y
            = get_cell (get_board scenario_B_heap scenario_B_object) x y)
     \<and> take (length scenario_B_heap) h' = scenario_B_heap)"
  using solve_keeps_callers_board [OF scenario_B_new, of 82 True] scenario_B_new by simp

text \<open>
  Claim C8, as the code has it. For an object made by the constructor, and with standard
  output a terminal, \<open>solve\<close> never raises: it returns \<open>undefined\<close> exactly when the
  board is not okay or has no completion, and otherwise a non-empty array of solved
  boards, each a completion of the caller's board. A board that is not okay is answered
  with \<open>undefined\<close> whatever standard output is.
\<close>

theorem solve_on_terminal_never_raises:
  assumes "Sudoku_new h0 input = Inr (h, this)" "81 < fuel" "isTTY"
  shows "(\<exists>h' r. solve isTTY fuel h this = Some (Inr (h', r))
     \<and> (r = None \<longleftrightarrow>
          \<not> okay (get_board h this) \<or> \<not> (\<exists>s. completion s (get_board h this)))
     \<and> (\<forall>solutions. r = Some solutions \<longrightarrow>
          solutions \<noteq> [] \<and> (\<forall>s\<in>set solutions. solved s \<and> completion s (get_board h this))))
   \<and> (\<not> okay (get_board h this) \<longrightarrow>
          (\<forall>stdout_isTTY. solve stdout_isTTY fuel h this = Some (Inr (h, None))))"
proof -
  let ?g = "contents h (board this)"
  obtain h' r new where s: "solve True fuel h this = Some (Inr (h', r))"
      "r = (if \<not> okay ?g \<or> new = [] then None else Some new)"
      "okay ?g \<longrightarrow> set new = {s. completion s ?g}"
    using solve_main [OF Sudoku_new_valid [OF assms(1)] assms(2)] by blast
  have 1: "r = None \<longleftrightarrow> \<not> okay ?g \<or> \<not> (\<exists>s. completion s ?g)"
  proof (cases "okay ?g")
    case False
    then show ?thesis using s(2) by simp
  next
    case True
    then have "set new = {s. completion s ?g}" using s(3) by simp
    then have "new = [] \<longleftrightarrow> \<not> (\<exists>s. completion s ?g)" by auto
    then show ?thesis using s(2) True by auto
  qed
  have 2: "solutions \<noteq> [] \<and> (\<forall>s\<in>set solutions. solved s \<and> completion s ?g)"
    if "r = Some solutions" for solutions
  proof -
    have "okay ?g" "new \<noteq> []" "solutions = new" using that s(2) by (auto split: if_splits)
    then show ?thesis using s(3) by (auto simp: completion_def)
  qed
  have 3: "solve stdout_isTTY fuel h this = Some (Inr (h, None))" if "\<not> okay ?g" for stdout_isTTY
    using that by (simp add: solve_def)
  have "\<exists>h' r. solve isTTY fuel h this = Some (Inr (h', r))
     \<and> (r = None \<longleftrightarrow> \<not> okay ?g \<or> \<not> (\<exists>s. completion s ?g))
     \<and> (\<forall>solutions. r = Some solutions \<longrightarrow>
          solutions \<noteq> [] \<and> (\<forall>s\<in>set solutions. solved s \<and> completion s ?g))"
    using s(1) 1 2 assms(3) by simp
  then show ?thesis using 3 by (simp add: get_board_def)
qed

theorem solve_on_terminal_never_raises_witness:
  "Sudoku_new [] (Matrix scenario_B) = Inr (scenario_B_heap, scenario_B_object) \<and> (81 :: nat) < 82
   \<and> (\<exists>h' r. solve True 82 scenario_B_heap scenario_B_object = Some (Inr (h', r))
     \<and> (r = None \<longleftrightarrow>
          \<not> okay (get_board scenario_B_heap scenario_B_object)
          \<or> \<not> (\<exists>s. completion s (get_board scenario_B_heap scenario_B_object)))
     \<and> (\<forall>solutions. r = Some solutions \<longrightarrow>
          solutions \<noteq> []
          \<and> (\<forall>s\<in>set solutions. solved s
                \<and> completion s (get_board scenario_B_heap scenario_B_object))))"
  using solve_on_terminal_never_raises [OF scenario_B_new, of 82 True] scenario_B_new by simp

text \<open>
  Claim C8 as stated fails: with standard output not a terminal, \<open>solve\<close> on the okay
  grid of the example run raises a \<open>TypeError\<close>, thrown by the display of the first call
  of the search.
\<close>

theorem solve_raises_without_terminal:
  "Sudoku_new [] (Matrix scenario_B) = Inr (scenario_B_heap, scenario_B_object)
   \<and> okay (get_board scenario_B_heap scenario_B_object)
   \<and> solve False 82 scenario_B_heap scenario_B_object
       = Some (Inl (TypeError ''process.stdout.cursorTo is not a function''))"
proof -
  have "okay (contents scenario_B_heap (board scenario_B_object))"
    using Sudoku_new_Inr(5) [OF scenario_B_new] scenario_B_okay(1) by simp
  then show ?thesis
    using solve_without_terminal [OF scenario_B_new, of 82] scenario_B_new
    by (simp add: get_board_def)
qed

section \<open>The example grid and its eight completions\<close>

lemma cand_list_set:
  assumes "x < 9" "y < 9"
  shows "set (cand_list b x y) = cand b x y"
proof -
  have r: "set [1, 2, 3, 4, 5, 6, 7, 8, 9] = {v::int. 1 \<le> v \<and> v \<le> 9}" by auto
  show ?thesis
    unfolding cand_list_def cand_groups [OF assms]
    by (cases "b ! y ! x \<noteq> 0") (simp_all only: if_True if_False set_filter r, auto)
qed

lemma all_cells_set: "set (concat (map row_cells [0..<9])) = {(x, y). x < 9 \<and> y < 9}"
  by (auto simp: row_cells_def image_iff)

lemma open_cells_set: "set (open_cells b) = empties b"
  unfolding open_cells_def set_filter all_cells_set empties_def by auto

lemma choose_cell_cases:
  "choose_cell c vs best = (True, Some (c, vs)) \<or> choose_cell c vs best = (False, Some (c, vs))
   \<or> choose_cell c vs best = (False, best)"
  by (cases best; cases "length vs \<le> 1"; simp)

lemma best_cell_cases:
  "best_cell b cs best = best
   \<or> (\<exists>c\<in>set cs. best_cell b cs best = Some (c, cand_list b (fst c) (snd c)))"
proof (induction cs arbitrary: best)
  case Nil
  then show ?case by simp
next
  case (Cons c cs)
  let ?vs = "cand_list b (fst c) (snd c)"
  consider "choose_cell c ?vs best = (True, Some (c, ?vs))"
    | "choose_cell c ?vs best = (False, Some (c, ?vs))"
    | "choose_cell c ?vs best = (False, best)"
    using choose_cell_cases [of c ?vs best] by blast
  then show ?case
  proof cases
    case 1
    then show ?thesis by simp
  next
    case 2
    then show ?thesis using Cons.IH [of "Some (c, ?vs)"] by auto
  next
    case 3
    then show ?thesis using Cons.IH [of best] by auto
  qed
qed

lemma best_cell_None: "best_cell b cs None = None \<Longrightarrow> cs = []"
proof (cases cs)
  case Nil
  then show ?thesis by simp
next
  case (Cons c cs')
  assume n: "best_cell b cs None = None"
  let ?vs = "cand_list b (fst c) (snd c)"
  have "best_cell b cs None = Some (c, ?vs) \<or> best_cell b cs None = best_cell b cs' (Some (c, ?vs))"
    unfolding Cons by (cases "length ?vs \<le> 1") simp_all
  moreover have "best_cell b cs' (Some (c, ?vs)) \<noteq> None"
    using best_cell_cases [of b cs' "Some (c, ?vs)"] by auto
  ultimately show ?thesis using n by auto
qed

lemma completions_leaf:
  assumes "nine_by_nine b" "in_range b" "empties b = {}"
  shows "{s. completion s b} = set (if okay b then [b] else [])"
proof (cases "okay b")
  case False
  then show ?thesis using completion_okay assms(1) by auto
next
  case True
  have nz: "\<forall>y<9. \<forall>x<9. b ! y ! x \<noteq> 0" using assms(3) by (auto simp: empties_def)
  then have "solved b" using True assms(1) by (simp add: solved_def all_nonzero_iff)
  then have "completion b b" using assms(1,2) by (simp add: completion_def extends_iff)
  moreover have "s = b" if "completion s b" for s
    using completionD(1) [OF that] assms(1) completionD(4) [OF that] nz by (intro grid_eqI) simp_all
  ultimately show ?thesis using True by auto
qed

lemma completions_split:
  assumes "nine_by_nine b" "x < 9" "y < 9" "b ! y ! x = 0"
  shows "{s. completion s b} = (\<Union>v\<in>cand b x y. {s. completion s (put b x y v)})"
proof -
  note f = fills_refl [OF assms(1)]
  have nz: "v \<noteq> 0" if "v \<in> cand b x y" for v using that by (auto simp: cand_def split: if_splits)
  have "completion s (put b x y (s ! y ! x)) \<and> s ! y ! x \<in> cand b x y" if "completion s b" for s
    using completion_in_cand [OF that assms(2-4)]
      completion_pivot [OF f assms(2-4), of "s ! y ! x" s] that nz by blast
  moreover have "completion s b" if "v \<in> cand b x y" "completion s (put b x y v)" for s v
    using completion_pivot [OF f assms(2-4) nz [OF that(1)]] that(2) by blast
  ultimately show ?thesis by blast
qed

lemma those_union:
  assumes "map_option concat (those (map f vs)) = Some sols"
    and "\<And>v r. v \<in> set vs \<Longrightarrow> f v = Some r \<Longrightarrow> set r = S v"
  shows "set sols = (\<Union>v\<in>set vs. S v)"
  using assms
proof (induction vs arbitrary: sols)
  case Nil
  then show ?case by auto
next
  case (Cons v vs)
  obtain r rs where r: "f v = Some r" "those (map f vs) = Some rs" "sols = r @ concat rs"
    using Cons.prems(1) by (auto split: option.splits)
  have "set (concat rs) = (\<Union>v\<in>set vs. S v)"
    using Cons.IH [of "concat rs"] r(2) Cons.prems(2) by simp
  moreover have "set r = S v" using Cons.prems(2) [of v r] r(1) by simp
  ultimately show ?case using r(3) by auto
qed

lemma enumerate_completions_sound:
  assumes "enumerate_completions n b = Some sols" "nine_by_nine b" "in_range b"
  shows "set sols = {s. completion s b}"
  using assms
proof (induction n arbitrary: b sols)
  case 0
  then show ?case by simp
next
  case (Suc n)
  show ?case
  proof (cases "best_cell b (open_cells b) None")
    case None
    then have "open_cells b = []" by (rule best_cell_None)
    then have "empties b = {}" using open_cells_set [of b] by simp
    moreover have "sols = (if okay b then [b] else [])" using Suc.prems(1) None by simp
    ultimately show ?thesis using completions_leaf [OF Suc.prems(2,3)] by simp
  next
    case (Some pv)
    obtain p vs where pv: "pv = (p, vs)" by (cases pv)
    have "p \<in> set (open_cells b) \<and> vs = cand_list b (fst p) (snd p)"
      using best_cell_cases [of b "open_cells b" None] Some pv by auto
    then have p: "fst p < 9" "snd p < 9" "b ! snd p ! fst p = 0" "vs = cand_list b (fst p) (snd p)"
      unfolding open_cells_set by (auto simp: empties_def)
    have vs: "set vs = cand b (fst p) (snd p)" using p by (simp add: cand_list_set)
    have e: "map_option concat (those (map (\<lambda>v. enumerate_completions n (put b (fst p) (snd p) v)) vs))
        = Some sols"
      using Suc.prems(1) Some pv by simp
    have sub: "set r = {s. completion s (put b (fst p) (snd p) v)}"
      if "v \<in> set vs" "enumerate_completions n (put b (fst p) (snd p) v) = Some r" for v r
    proof -
      have "1 \<le> v \<and> v \<le> 9" using that(1) vs by (auto simp: cand_def split: if_splits)
      then have "in_range (put b (fst p) (snd p) v)"
        using Suc.prems(2,3) p(1,2) by (intro in_range_put) simp_all
      then show ?thesis
        using Suc.IH [OF that(2) nine_by_nine_put [OF Suc.prems(2)]] by simp
    qed
    have "set sols = (\<Union>v\<in>set vs. {s. completion s (put b (fst p) (snd p) v)})"
      by (rule those_union [OF e, of "\<lambda>v. {s. completion s (put b (fst p) (snd p) v)}"]) (rule sub)
    then show ?thesis unfolding vs completions_split [OF Suc.prems(2) p(1-3)] .
  qed
qed

lemma scenario_B_enumerated: "enumerate_completions 60 scenario_B = Some scenario_B_solutions"
  by code_simp

lemma scenario_B_completions: "{s. completion s scenario_B} = set scenario_B_solutions"
  using enumerate_completions_sound [OF scenario_B_enumerated scenario_B_shape] by simp

lemma scenario_B_solutions_distinct: "distinct scenario_B_solutions"
  by code_simp

lemma scenario_B_contents: "contents scenario_B_heap (board scenario_B_object) = scenario_B"
  using Sudoku_new_Inr(5) [OF scenario_B_new] by simp

lemma scenario_B_solve:
  assumes "81 < fuel"
  shows "\<exists>h' sols. solve True fuel scenario_B_heap scenario_B_object = Some (Inr (h', Some sols))
     \<and> length sols = 8 \<and> set sols = set scenario_B_solutions"
proof -
  obtain h' r new where s: "solve True fuel scenario_B_heap scenario_B_object = Some (Inr (h', r))"
      "r = (if \<not> okay scenario_B \<or> new = [] then None else Some new)"
      "okay scenario_B \<longrightarrow> set new = {s. completion s scenario_B} \<and> distinct new"
    using solve_main [OF Sudoku_new_valid [OF scenario_B_new] assms]
    unfolding scenario_B_contents by blast
  have n: "set new = set scenario_B_solutions" "distinct new"
    using s(3) scenario_B_okay(1) scenario_B_completions by simp_all
  have "length new = card (set scenario_B_solutions)" using n by (metis distinct_card)
  also have "\<dots> = length scenario_B_solutions"
    using scenario_B_solutions_distinct by (rule distinct_card)
  also have "\<dots> = 8" by (simp add: scenario_B_solutions_def)
  finally have l: "length new = 8" .
  then have "new \<noteq> []" by auto
  then have "r = Some new" using s(2) scenario_B_okay(1) by simp
  then show ?thesis using s(1) l n(1) by blast
qed

text \<open>
  Claim C4, as the code has it. The grid of the example run is okay and not solved, and
  with standard output a terminal \<open>solve\<close> returns an array of exactly eight solution
  grids, the eight completions of the grid.
\<close>

theorem scenario_B_eight_solutions:
  assumes "81 < fuel" "isTTY"
  shows "Sudoku_new [] (Matrix scenario_B) = Inr (scenario_B_heap, scenario_B_object)
     \<and> get_board scenario_B_heap scenario_B_object = scenario_B
     \<and> okay (get_board scenario_B_heap scenario_B_object)
     \<and> \<not> solved (get_board scenario_B_heap scenario_B_object)
     \<and> (\<exists>h' sols. solve isTTY fuel scenario_B_heap scenario_B_object = Some (Inr (h', Some sols))
           \<and> length sols = 8 \<and> set sols = set scenario_B_solutions)"
  using scenario_B_solve [OF assms(1)] assms(2) scenario_B_new scenario_B_okay
  by (simp add: get_board_def scenario_B_contents)

theorem scenario_B_eight_solutions_witness:
  "(81 :: nat) < 82
   \<and> Sudoku_new [] (Matrix scenario_B) = Inr (scenario_B_heap, scenario_B_object)
   \<and> get_board scenario_B_heap scenario_B_object = scenario_B
   \<and> okay (get_board scenario_B_heap scenario_B_object)
   \<and> \<not> solved (get_board scenario_B_heap scenario_B_object)
   \<and> (\<exists>h' sols. solve True 82 scenario_B_heap scenario_B_object = Some (Inr (h', Some sols))
         \<and> length sols = 8 \<and> set sols = set scenario_B_solutions)"
proof -
  have "(81 :: nat) < 82" by simp
  then show ?thesis using scenario_B_eight_solutions [of 82 True] by blast
qed

text \<open>
  Claim C4 as stated fails: with standard output a terminal, \<open>solve\<close> does not
  return an array of exactly one grid.
\<close>

theorem scenario_B_not_one_solution:
  "\<not> (\<exists>h' s. solve True 82 scenario_B_heap scenario_B_object = Some (Inr (h', Some [s])))"
proof
  assume "\<exists>h' s. solve True 82 scenario_B_heap scenario_B_object = Some (Inr (h', Some [s]))"
  then obtain h' s where "solve True 82 scenario_B_heap scenario_B_object = Some (Inr (h', Some [s]))"
    by blast
  moreover obtain h'' sols where "solve True 82 scenario_B_heap scenario_B_object = Some (Inr (h'', Some sols))"
      "length sols = 8"
    using scenario_B_solve [of 82] by auto
  ultimately show False by simp
qed

end
